theory Spec2Isabelle
  imports Main "HOL-Library.Word" "HOL-Library.Multiset"
begin

unbundle bit_operations_syntax

section \<open>Machine integers\<close>

text \<open>
  The C++ type \<^verbatim>\<open>unsigned\<close> is a 32-bit word: \<open>+\<close>, \<open>-\<close> wrap around and
  \<open>div\<close> is the unsigned division. The \<^verbatim>\<open>int\<close> field \<^verbatim>\<open>retries\<close> is a 32-bit
  word read in two's complement by \<open>sint\<close>; the increment at \<^verbatim>\<open>INT_MAX\<close>,
  undefined in C++, wraps here.
\<close>

type_synonym u32 = "32 word"

section \<open>The abort handler\<close>

text \<open>
  \<^verbatim>\<open>struct Item { value_type val; int retries; }\<close>
\<close>

record 'a Item =
  val :: 'a
  retries :: "32 word"

text \<open>
  The thread pool (\<^verbatim>\<open>katana/ThreadPool.h\<close>) is a collaborator of the handler: the
  handler only reads the topology from it. It is a parameter of the model. The entries
  that the source reads for the calling thread (\<^verbatim>\<open>getSocket()\<close>, \<^verbatim>\<open>getLeader()\<close>)
  are functions of the thread id \<^verbatim>\<open>getTID()\<close>, which every operation of the model
  takes as the argument \<open>tid\<close>.
\<close>

record ThreadPool =
  getMaxSockets :: u32
  getSocket :: "u32 \<Rightarrow> u32"
  getLeader :: "u32 \<Rightarrow> u32"
  getLeaderForSocket :: "u32 \<Rightarrow> u32"

text \<open>
  \<^verbatim>\<open>PerThreadStorage<AbortedList> queues; bool useBasicPolicy;\<close>
  The per-thread storage is a function of the thread id; \<^verbatim>\<open>getLocal()\<close> is the entry
  at \<open>tid\<close>, \<^verbatim>\<open>getRemote(i)\<close> the entry at \<open>i\<close>. An \<^verbatim>\<open>AbortedList\<close> is a
  \<^verbatim>\<open>GFIFO<Item>\<close>, a queue whose \<^verbatim>\<open>push\<close> appends at the back.
\<close>

record 'a AbortHandler =
  queues :: "u32 \<Rightarrow> 'a Item list"
  useBasicPolicy :: bool

definition enqueue :: "u32 \<Rightarrow> 'a Item \<Rightarrow> 'a AbortHandler \<Rightarrow> 'a AbortHandler" where
  "enqueue i item h = h\<lparr>queues := (queues h)(i := queues h i @ [item])\<rparr>"

definition basicPolicy :: "ThreadPool \<Rightarrow> u32 \<Rightarrow> 'a Item \<Rightarrow> 'a AbortHandler \<Rightarrow> 'a AbortHandler" where
  "basicPolicy tp tid item h =
     (let socket = getSocket tp tid
      in enqueue (getLeaderForSocket tp (socket div 2)) item h)"

definition doublePolicy :: "ThreadPool \<Rightarrow> u32 \<Rightarrow> 'a Item \<Rightarrow> 'a AbortHandler \<Rightarrow> 'a AbortHandler" where
  "doublePolicy tp tid item h =
     (let retries = retries item - 1
      in if retries AND 1 = 1 then enqueue tid item h
         else
           let socket = getSocket tp tid;
               leader = getLeader tp tid
           in if tid \<noteq> leader
              then let next = leader + (tid - leader) div 2 in enqueue next item h
              else enqueue (getLeaderForSocket tp (socket div 2)) item h)"

definition boundedPolicy :: "ThreadPool \<Rightarrow> u32 \<Rightarrow> 'a Item \<Rightarrow> 'a AbortHandler \<Rightarrow> 'a AbortHandler" where
  "boundedPolicy tp tid item h =
     (let retries = retries item - 1
      in if sint retries < 2 then enqueue tid item h
         else
           let socket = getSocket tp tid;
               leader = getLeaderForSocket tp socket
           in if sint retries < 5 \<and> tid \<noteq> leader
              then let next = leader + (tid - leader) div 2 in enqueue next item h
              else enqueue (getLeaderForSocket tp (socket div 2)) item h)"

definition eagerPolicy :: "u32 \<Rightarrow> 'a Item \<Rightarrow> 'a AbortHandler \<Rightarrow> 'a AbortHandler" where
  "eagerPolicy tid item h = enqueue tid item h"

text \<open>The constructor: \<^verbatim>\<open>useBasicPolicy = GetThreadPool().getMaxSockets() > 2\<close>.\<close>

definition new_AbortHandler :: "ThreadPool \<Rightarrow> 'a AbortHandler" where
  "new_AbortHandler tp = \<lparr>queues = (\<lambda>_. []), useBasicPolicy = (getMaxSockets tp > 2)\<rparr>"

text \<open>\<^verbatim>\<open>void push(const value_type& val)\<close>\<close>

definition push_val :: "u32 \<Rightarrow> 'a \<Rightarrow> 'a AbortHandler \<Rightarrow> 'a AbortHandler" where
  "push_val tid v h = (let item = \<lparr>val = v, retries = 1\<rparr> in enqueue tid item h)"

text \<open>\<^verbatim>\<open>void push(const Item& item)\<close>\<close>

definition push_item :: "ThreadPool \<Rightarrow> u32 \<Rightarrow> 'a Item \<Rightarrow> 'a AbortHandler \<Rightarrow> 'a AbortHandler" where
  "push_item tp tid item h =
     (let newitem = \<lparr>val = val item, retries = retries item + 1\<rparr>
      in if useBasicPolicy h then basicPolicy tp tid newitem h
         else doublePolicy tp tid newitem h)"

text \<open>
  \<^verbatim>\<open>getQueue()\<close> hands the local queue to the executor, which pops from its front.
\<close>

definition getQueue :: "u32 \<Rightarrow> 'a AbortHandler \<Rightarrow> 'a Item list" where
  "getQueue tid h = queues h tid"

definition pop_queue :: "u32 \<Rightarrow> 'a AbortHandler \<Rightarrow> 'a Item option \<times> 'a AbortHandler" where
  "pop_queue tid h =
     (case queues h tid of
        [] \<Rightarrow> (None, h)
      | x # xs \<Rightarrow> (Some x, h\<lparr>queues := (queues h)(tid := xs)\<rparr>))"

text \<open>
  The calls a handler receives during a run: pushes of fresh values, re-pushes of retry
  records and pops of the local queue, each by some thread.
\<close>

datatype 'a handler_call =
  PushVal u32 'a
| PushItem u32 "'a Item"
| PopQueue u32

fun handler_step :: "ThreadPool \<Rightarrow> 'a handler_call \<Rightarrow> 'a AbortHandler \<Rightarrow> 'a AbortHandler" where
  "handler_step tp (PushVal tid v) h = push_val tid v h"
| "handler_step tp (PushItem tid item) h = push_item tp tid item h"
| "handler_step tp (PopQueue tid) h = snd (pop_queue tid h)"

definition handler_run :: "ThreadPool \<Rightarrow> 'a handler_call list \<Rightarrow> 'a AbortHandler" where
  "handler_run tp calls = fold (handler_step tp) calls (new_AbortHandler tp)"

text \<open>
  The destination the specification gives for the double policy, as a function of the
  retry count \<open>r\<close> of the record that is pushed again, of the calling worker and of the
  topology.
\<close>

definition spec_double_destination :: "ThreadPool \<Rightarrow> u32 \<Rightarrow> 32 word \<Rightarrow> u32" where
  "spec_double_destination tp tid r =
     (if odd (sint r) then tid
      else if tid \<noteq> getLeader tp tid
           then getLeader tp tid + (tid - getLeader tp tid) div 2
           else getLeaderForSocket tp (getSocket tp tid div 2))"

text \<open>A machine with two sockets of two workers each: workers 0, 1 and 2, 3.\<close>

definition two_sockets :: ThreadPool where
  "two_sockets =
     \<lparr>getMaxSockets = 2,
      getSocket = (\<lambda>t. if t < 2 then 0 else 1),
      getLeader = (\<lambda>t. if t < 2 then 0 else 2),
      getLeaderForSocket = (\<lambda>s. if s = 0 then 0 else 2)\<rparr>"

text \<open>A machine with four sockets of two workers each.\<close>

definition four_sockets :: ThreadPool where
  "four_sockets =
     \<lparr>getMaxSockets = 4,
      getSocket = (\<lambda>t. t div 2),
      getLeader = (\<lambda>t. 2 * (t div 2)),
      getLeaderForSocket = (\<lambda>s. 2 * s)\<rparr>"

subsection \<open>Facts about the handler\<close>

lemma useBasicPolicy_enqueue: "useBasicPolicy (enqueue i item h) = useBasicPolicy h"
  by (simp add: enqueue_def)

lemma useBasicPolicy_step: "useBasicPolicy (handler_step tp c h) = useBasicPolicy h"
  by (cases c)
     (simp_all add: push_val_def push_item_def basicPolicy_def doublePolicy_def
        pop_queue_def useBasicPolicy_enqueue Let_def split: list.split)

lemma useBasicPolicy_fold:
  "useBasicPolicy (fold (handler_step tp) calls h) = useBasicPolicy h"
  by (induction calls arbitrary: h) (simp_all add: useBasicPolicy_step)

lemma useBasicPolicy_run:
  "useBasicPolicy (handler_run tp calls :: 'a AbortHandler) = (getMaxSockets tp > 2)"
  by (simp add: handler_run_def useBasicPolicy_fold new_AbortHandler_def)

lemma sint_and_one_odd: "(r AND 1 = 1) = odd (sint r)" for r :: "32 word"
proof -
  have "(r AND 1 = 1) = odd r"
    by (simp add: and_one_eq mod2_eq_if)
  also have "\<dots> = odd (sint r)"
    using bit_sint_iff [of r 0] by (simp add: bit_0)
  finally show ?thesis .
qed

text \<open>
  Claim C1, as the code has it. On any handler reached from its construction by pushes
  and pops, pushing a fresh value \<open>v\<close> appends the record (\<open>v\<close>, retries = 1) to
  the calling worker's own queue. Pushing a retry record again increments its
  \<open>retries\<close> field and hands the new record to the policy that the constructor fixed:
  the basic policy when the machine has more than 2 sockets, the double policy when it
  has at most 2.
\<close>

theorem abort_push_policy:
  fixes calls :: "'a handler_call list"
  shows
  "push_val tid v (handler_run tp calls) =
     enqueue tid \<lparr>val = v, retries = 1\<rparr> (handler_run tp calls)
   \<and> queues (push_val tid v (handler_run tp calls)) tid =
       queues (handler_run tp calls) tid @ [\<lparr>val = v, retries = 1\<rparr>]
   \<and> push_item tp tid item (handler_run tp calls) =
       (if getMaxSockets tp > 2
        then basicPolicy tp tid \<lparr>val = val item, retries = retries item + 1\<rparr> (handler_run tp calls)
        else doublePolicy tp tid \<lparr>val = val item, retries = retries item + 1\<rparr> (handler_run tp calls))"
  by (simp add: push_val_def push_item_def useBasicPolicy_run enqueue_def)

theorem abort_push_policy_witness:
  "queues (push_val 1 (7::nat) (handler_run two_sockets [PushVal 1 5])) 1 =
     [\<lparr>val = 5, retries = 1\<rparr>, \<lparr>val = 7, retries = 1\<rparr>]
   \<and> queues (push_item two_sockets 1 \<lparr>val = (7::nat), retries = 2\<rparr>
        (handler_run two_sockets [PushVal 1 5])) 0 = [\<lparr>val = 7, retries = 3\<rparr>]"
  using abort_push_policy [where tid = 1 and v = "7::nat" and tp = two_sockets
          and calls = "[PushVal 1 5]" and item = "\<lparr>val = (7::nat), retries = 2\<rparr>"]
  by (simp add: handler_run_def new_AbortHandler_def push_val_def enqueue_def two_sockets_def
       doublePolicy_def)

text \<open>
  Claim C1 as the specification words it fails. On the machine with 2 sockets, worker 3
  pushes the record (7, retries = 2) again: the double policy puts the new record on
  worker 2, halfway to the leader, where the basic policy would have put it on worker 0,
  which stays empty. On the machine with 4 sockets the basic policy runs: worker 3
  pushes the record (7, retries = 1) again and it lands on worker 0, the leader of socket
  \<open>1 div 2\<close>, where the double policy would have kept it away from worker 0.
\<close>

theorem abort_policy_counterexample:
  "getMaxSockets two_sockets \<le> 2
   \<and> queues (push_item two_sockets 3 \<lparr>val = (7::nat), retries = 2\<rparr> (new_AbortHandler two_sockets)) 2
       = [\<lparr>val = 7, retries = 3\<rparr>]
   \<and> queues (push_item two_sockets 3 \<lparr>val = (7::nat), retries = 2\<rparr> (new_AbortHandler two_sockets)) 0
       = []
   \<and> queues (basicPolicy two_sockets 3 \<lparr>val = (7::nat), retries = 3\<rparr> (new_AbortHandler two_sockets)) 0
       = [\<lparr>val = 7, retries = 3\<rparr>]
   \<and> getMaxSockets four_sockets > 2
   \<and> queues (push_item four_sockets 3 \<lparr>val = (7::nat), retries = 1\<rparr> (new_AbortHandler four_sockets)) 0
       = [\<lparr>val = 7, retries = 2\<rparr>]
   \<and> queues (doublePolicy four_sockets 3 \<lparr>val = (7::nat), retries = 2\<rparr> (new_AbortHandler four_sockets)) 0
       = []"
  by (simp add: push_item_def new_AbortHandler_def enqueue_def two_sockets_def four_sockets_def
       doublePolicy_def basicPolicy_def)

text \<open>
  Claim C9. Under the double policy, pushing a retry record again enqueues the record,
  its \<open>retries\<close> incremented, on exactly one queue: the calling worker's own when the
  record's retry count is odd; otherwise the worker \<open>leader + (tid - leader) div 2\<close>
  when the caller is not the leader of its socket, and the leader of socket
  \<open>socket div 2\<close> when it is. The destination is the function
  \<open>spec_double_destination\<close> of the retry count, the caller and the topology.
\<close>

theorem double_policy_destination:
  "\<not> useBasicPolicy h \<Longrightarrow>
     push_item tp tid item h =
       enqueue (spec_double_destination tp tid (retries item))
         \<lparr>val = val item, retries = retries item + 1\<rparr> h"
  by (simp add: push_item_def doublePolicy_def spec_double_destination_def sint_and_one_odd Let_def)

theorem double_policy_destination_witness:
  "\<not> useBasicPolicy (new_AbortHandler two_sockets :: nat AbortHandler)
   \<and> queues (push_item two_sockets 3 \<lparr>val = (7::nat), retries = 2\<rparr> (new_AbortHandler two_sockets)) 2
       = [\<lparr>val = 7, retries = 3\<rparr>]"
  using double_policy_destination [of "new_AbortHandler two_sockets :: nat AbortHandler" two_sockets 3
          "\<lparr>val = (7::nat), retries = 2\<rparr>"]
  by (simp add: new_AbortHandler_def enqueue_def two_sockets_def spec_double_destination_def)

section \<open>Worklists\<close>

text \<open>
  A worklist's \<^verbatim>\<open>pop\<close> returns \<^verbatim>\<open>std::pair<bool, value_type>\<close>; the model returns
  \<open>Some v\<close> for \<^verbatim>\<open>(true, v)\<close> and \<open>None\<close> for \<^verbatim>\<open>(false, value_type())\<close>, together
  with the worklist after the call. The locks taken and released inside one call have no
  effect on a run in which calls do not overlap, and are left out.
\<close>

datatype 'a wl_call = Push 'a | Pop

text \<open>
  A worker's calls on a worklist, in order: the items its successful pops returned, and
  the worklist at the end.
\<close>

fun run_calls ::
  "('a \<Rightarrow> 's \<Rightarrow> 's) \<Rightarrow> ('s \<Rightarrow> 'a option \<times> 's) \<Rightarrow> 'a wl_call list \<Rightarrow> 's \<Rightarrow> 'a list \<times> 's" where
  "run_calls push pop [] s = ([], s)"
| "run_calls push pop (Push v # cs) s = run_calls push pop cs (push v s)"
| "run_calls push pop (Pop # cs) s =
     (case pop s of
        (None, s') \<Rightarrow> run_calls push pop cs s'
      | (Some v, s') \<Rightarrow> (case run_calls push pop cs s' of (vs, s'') \<Rightarrow> (v # vs, s'')))"

fun pushed :: "'a wl_call list \<Rightarrow> 'a list" where
  "pushed [] = []"
| "pushed (Push v # cs) = v # pushed cs"
| "pushed (Pop # cs) = pushed cs"

subsection \<open>The ring buffer of a chunk\<close>

text \<open>
  Modelled from the spec: \<^verbatim>\<open>FixedSizeRing<T, N, false>\<close> is declared in
  \<^verbatim>\<open>WorkListHelpers.h\<close>, which is not among the sources. The specification calls it a
  chunk "of fixed capacity"; its callers use \<^verbatim>\<open>push_back\<close> (false when the ring is
  full), \<^verbatim>\<open>pop_front\<close> (false when it is empty), \<^verbatim>\<open>empty\<close> and \<^verbatim>\<open>full\<close>. A ring
  is the list of its items, oldest first, of length at most \<open>N\<close>.
\<close>

type_synonym 'a FixedSizeRing = "'a list"

definition ring_empty :: "'a FixedSizeRing \<Rightarrow> bool" where
  "ring_empty r = (r = [])"

definition ring_full :: "nat \<Rightarrow> 'a FixedSizeRing \<Rightarrow> bool" where
  "ring_full N r = (N \<le> length r)"

definition ring_push_back :: "nat \<Rightarrow> 'a \<Rightarrow> 'a FixedSizeRing \<Rightarrow> bool \<times> 'a FixedSizeRing" where
  "ring_push_back N v r = (if ring_full N r then (False, r) else (True, r @ [v]))"

definition ring_pop_front :: "'a FixedSizeRing \<Rightarrow> 'a option \<times> 'a FixedSizeRing" where
  "ring_pop_front r = (case r of [] \<Rightarrow> (None, []) | x # xs \<Rightarrow> (Some x, xs))"

subsection \<open>LIFO\<close>

text \<open>\<^verbatim>\<open>std::vector<T> wl\<close>: the back of the vector is the end of the list.\<close>

type_synonym 'a LIFO = "'a list"

definition new_LIFO :: "'a LIFO" where
  "new_LIFO = []"

definition LIFO_push :: "'a \<Rightarrow> 'a LIFO \<Rightarrow> 'a LIFO" where
  "LIFO_push v wl = wl @ [v]"

definition LIFO_pop :: "'a LIFO \<Rightarrow> 'a option \<times> 'a LIFO" where
  "LIFO_pop wl = (if wl = [] then (None, wl) else (Some (last wl), butlast wl))"

definition LIFO_empty :: "'a LIFO \<Rightarrow> bool" where
  "LIFO_empty wl = (wl = [])"

subsection \<open>sFIFO\<close>

text \<open>\<^verbatim>\<open>std::deque<T> wl\<close>: the front of the deque is the head of the list.\<close>

type_synonym 'a sFIFO = "'a list"

definition new_sFIFO :: "'a sFIFO" where
  "new_sFIFO = []"

definition sFIFO_push :: "'a \<Rightarrow> 'a sFIFO \<Rightarrow> 'a sFIFO" where
  "sFIFO_push v wl = wl @ [v]"

definition sFIFO_pop :: "'a sFIFO \<Rightarrow> 'a option \<times> 'a sFIFO" where
  "sFIFO_pop wl = (if wl = [] then (None, wl) else (Some (hd wl), tl wl))"

definition sFIFO_empty :: "'a sFIFO \<Rightarrow> bool" where
  "sFIFO_empty wl = (wl = [])"

subsection \<open>FIFO\<close>

text \<open>
  \<^verbatim>\<open>FIFO<T>\<close> is a singly linked list of chunks, each a ring of 128 items, with a
  \<^verbatim>\<open>head\<close> and a \<^verbatim>\<open>tail\<close> pointer that are never null. The model is the pair of
  the head chunk and the list of the chunks that follow it along \<^verbatim>\<open>next\<close>; the tail
  is the last chunk of the chain. The allocator calls are left out.
\<close>

type_synonym 'a FIFO = "'a FixedSizeRing \<times> 'a FixedSizeRing list"

definition new_FIFO :: "'a FIFO" where
  "new_FIFO = ([], [])"

definition FIFO_tail :: "'a FIFO \<Rightarrow> 'a FixedSizeRing" where
  "FIFO_tail q = last (fst q # snd q)"

definition FIFO_set_tail :: "'a FixedSizeRing \<Rightarrow> 'a FIFO \<Rightarrow> 'a FIFO" where
  "FIFO_set_tail t q = (if snd q = [] then (t, []) else (fst q, butlast (snd q) @ [t]))"

text \<open>
  \<^verbatim>\<open>push\<close>: \<^verbatim>\<open>tail->push_back(val)\<close>; when the tail is full, a new chunk holding
  \<^verbatim>\<open>val\<close> is linked behind it and becomes the tail.
\<close>

definition FIFO_push :: "'a \<Rightarrow> 'a FIFO \<Rightarrow> 'a FIFO" where
  "FIFO_push v q =
     (case ring_push_back 128 v (FIFO_tail q) of
        (True, t) \<Rightarrow> FIFO_set_tail t q
      | (False, _) \<Rightarrow>
          (case ring_push_back 128 v [] of (worked, nc) \<Rightarrow> (fst q, snd q @ [nc])))"

text \<open>
  \<^verbatim>\<open>while (head->empty() && head->next) { old = head; head = old->next; free old }\<close>
\<close>

fun popEmptyChunksLocked :: "'a FIFO \<Rightarrow> 'a FIFO" where
  "popEmptyChunksLocked (h, []) = (h, [])"
| "popEmptyChunksLocked (h, c # cs) =
     (if ring_empty h then popEmptyChunksLocked (c, cs) else (h, c # cs))"

definition FIFO_pop :: "'a FIFO \<Rightarrow> 'a option \<times> 'a FIFO" where
  "FIFO_pop q =
     (case popEmptyChunksLocked q of
        (h, cs) \<Rightarrow> (case ring_pop_front h of (retval, h') \<Rightarrow> (retval, (h', cs))))"


definition FIFO_empty :: "'a FIFO \<Rightarrow> bool \<times> 'a FIFO" where
  "FIFO_empty q = (case popEmptyChunksLocked q of (h, cs) \<Rightarrow> (ring_empty h, (h, cs)))"

text \<open>The items of a FIFO, oldest first.\<close>

definition FIFO_items :: "'a FIFO \<Rightarrow> 'a list" where
  "FIFO_items q = fst q @ concat (snd q)"

subsection \<open>ChunkedFIFO\<close>

text \<open>
  \<^verbatim>\<open>struct p { Chunk* cur; Chunk* next; }\<close>: the consumer and the producer chunk of one
  worker, \<open>None\<close> for a null pointer. \<^verbatim>\<open>PerCPU<p> data\<close> is a function of the worker.
  \<^verbatim>\<open>head\<close> is the shared list of chunks linked along \<^verbatim>\<open>Chunk::next\<close>, empty for a
  null \<^verbatim>\<open>head\<close>. Every chunk is owned by one place at a time: a producer chunk is moved
  to the shared list (\<^verbatim>\<open>pushChunk(n.next); n.next = 0\<close>) or to the consumer slot, and a
  chunk taken from the shared list is moved to the consumer slot, so chunks are values.
  The template parameter \<^verbatim>\<open>chunksize\<close> (64 by default) is the argument \<open>N\<close>.
\<close>

record 'a p =
  cur :: "'a FixedSizeRing option"
  "next" :: "'a FixedSizeRing option"

record 'a ChunkedFIFO =
  data :: "nat \<Rightarrow> 'a p"
  head :: "'a FixedSizeRing list"

definition new_ChunkedFIFO :: "'a ChunkedFIFO" where
  "new_ChunkedFIFO = \<lparr>data = (\<lambda>_. \<lparr>cur = None, next = None\<rparr>), head = []\<rparr>"

text \<open>
  \<^verbatim>\<open>pushChunk(C)\<close>: walk from \<^verbatim>\<open>head\<close> to the last chunk and link \<^verbatim>\<open>C\<close> behind it,
  or make \<^verbatim>\<open>C\<close> the head of an empty list. \<^verbatim>\<open>fill_initial\<close> passes a null \<^verbatim>\<open>C\<close>
  when the worker has no producer chunk, which leaves the list as it is.
\<close>

fun pushChunk :: "'a FixedSizeRing option \<Rightarrow> 'a FixedSizeRing list \<Rightarrow> 'a FixedSizeRing list" where
  "pushChunk C [] = (case C of None \<Rightarrow> [] | Some c \<Rightarrow> [c])"
| "pushChunk C (l # rest) = l # pushChunk C rest"

definition popChunk :: "'a FixedSizeRing list \<Rightarrow> 'a FixedSizeRing option \<times> 'a FixedSizeRing list" where
  "popChunk h = (case h of [] \<Rightarrow> (None, []) | r # rest \<Rightarrow> (Some r, rest))"

text \<open>
  \<^verbatim>\<open>push\<close> returns \<^verbatim>\<open>retval\<close>, the result of \<^verbatim>\<open>n.next->push_back(val)\<close>, after
  \<^verbatim>\<open>assert(retval)\<close>.
\<close>

definition ChunkedFIFO_push :: "nat \<Rightarrow> nat \<Rightarrow> 'a \<Rightarrow> 'a ChunkedFIFO \<Rightarrow> bool \<times> 'a ChunkedFIFO" where
  "ChunkedFIFO_push N tid v s =
     (let n = data s tid;
          (n, h) = (case next n of
                       Some c \<Rightarrow> if ring_full N c then (n\<lparr>next := None\<rparr>, pushChunk (Some c) (head s))
                                 else (n, head s)
                     | None \<Rightarrow> (n, head s));
          c = (case next n of None \<Rightarrow> [] | Some c \<Rightarrow> c);
          (retval, c) = ring_push_back N v c
      in (retval, s\<lparr>data := (data s)(tid := n\<lparr>next := Some c\<rparr>), head := h\<rparr>))"

definition ChunkedFIFO_pop :: "nat \<Rightarrow> 'a ChunkedFIFO \<Rightarrow> 'a option \<times> 'a ChunkedFIFO" where
  "ChunkedFIFO_pop tid s =
     (let n = data s tid;
          n = (case cur n of
                 Some c \<Rightarrow> if ring_empty c then n\<lparr>cur := None\<rparr> else n
               | None \<Rightarrow> n)
      in case cur n of
           Some c \<Rightarrow>
             (case ring_pop_front c of
                (retval, c') \<Rightarrow> (retval, s\<lparr>data := (data s)(tid := n\<lparr>cur := Some c'\<rparr>)\<rparr>))
         | None \<Rightarrow>
             (case popChunk (head s) of
                (Some r, h) \<Rightarrow>
                  (case ring_pop_front r of
                     (retval, c') \<Rightarrow>
                       (retval, s\<lparr>data := (data s)(tid := n\<lparr>cur := Some c'\<rparr>), head := h\<rparr>))
              | (None, h) \<Rightarrow>
                  (case next n of
                     None \<Rightarrow> (None, s\<lparr>data := (data s)(tid := n\<lparr>cur := None, next := None\<rparr>), head := h\<rparr>)
                   | Some c \<Rightarrow>
                       (case ring_pop_front c of
                          (retval, c') \<Rightarrow>
                            (retval,
                             s\<lparr>data := (data s)(tid := n\<lparr>cur := Some c', next := None\<rparr>),
                               head := h\<rparr>)))))"

text \<open>
  \<^verbatim>\<open>
  bool empty() {
    p& n = data.get();
    if (n.cur && !n.cur->empty()) return false;
    if (n.next && !n.next->empty()) return false;
    if (!head.getValue()) return false;
    return true;
  }
  \<close>
\<close>

definition ChunkedFIFO_empty :: "nat \<Rightarrow> 'a ChunkedFIFO \<Rightarrow> bool" where
  "ChunkedFIFO_empty tid s =
     (let n = data s tid
      in if (case cur n of Some c \<Rightarrow> \<not> ring_empty c | None \<Rightarrow> False) then False
         else if (case next n of Some c \<Rightarrow> \<not> ring_empty c | None \<Rightarrow> False) then False
         else if head s = [] then False
         else True)"

text \<open>
  \<^verbatim>\<open>fill_initial(ii, ee)\<close>: push every item of the range, then move the producer chunk to
  the shared list.
\<close>

definition ChunkedFIFO_fill_initial :: "nat \<Rightarrow> nat \<Rightarrow> 'a list \<Rightarrow> 'a ChunkedFIFO \<Rightarrow> 'a ChunkedFIFO" where
  "ChunkedFIFO_fill_initial N tid items s =
     (let s = fold (\<lambda>v s. snd (ChunkedFIFO_push N tid v s)) items s;
          n = data s tid
      in s\<lparr>data := (data s)(tid := n\<lparr>next := None\<rparr>), head := pushChunk (next n) (head s)\<rparr>)"

text \<open>
  The items a worker can still reach: those of its consumer chunk, of the chunks on the
  shared list, and of its producer chunk.
\<close>

definition chunk_items :: "'a FixedSizeRing option \<Rightarrow> 'a list" where
  "chunk_items C = (case C of None \<Rightarrow> [] | Some c \<Rightarrow> c)"

definition ChunkedFIFO_items :: "nat \<Rightarrow> 'a ChunkedFIFO \<Rightarrow> 'a list" where
  "ChunkedFIFO_items tid s =
     chunk_items (cur (data s tid)) @ concat (head s) @ chunk_items (next (data s tid))"

subsection \<open>Popping until pop fails\<close>

text \<open>
  \<^verbatim>\<open>while ((p = wl.pop()).first) ...\<close>: the items popped until \<^verbatim>\<open>pop\<close> reports
  failure, in the order of the pops.
\<close>

function LIFO_drain :: "'a LIFO \<Rightarrow> 'a list" where
  "LIFO_drain wl = (case LIFO_pop wl of (None, _) \<Rightarrow> [] | (Some v, wl') \<Rightarrow> v # LIFO_drain wl')"
  by pat_completeness auto
termination
  by (relation "measure length") (auto simp: LIFO_pop_def split: if_splits)

declare LIFO_drain.simps [simp del]

function sFIFO_drain :: "'a sFIFO \<Rightarrow> 'a list" where
  "sFIFO_drain wl = (case sFIFO_pop wl of (None, _) \<Rightarrow> [] | (Some v, wl') \<Rightarrow> v # sFIFO_drain wl')"
  by pat_completeness auto
termination
  by (relation "measure length") (auto simp: sFIFO_pop_def split: if_splits)

declare sFIFO_drain.simps [simp del]

text \<open>
  Every successful \<^verbatim>\<open>pop\<close> of a chunked FIFO takes the first of the items its worker
  can reach, and a failed one takes none; this is also why popping until failure ends.
\<close>

lemma ChunkedFIFO_pop_items:
  "ChunkedFIFO_pop tid s = (r, s') \<Longrightarrow>
     ChunkedFIFO_items tid s = (case r of None \<Rightarrow> [] | Some v \<Rightarrow> [v]) @ ChunkedFIFO_items tid s'"
  by (auto simp: ChunkedFIFO_pop_def ChunkedFIFO_items_def chunk_items_def popChunk_def
        ring_pop_front_def ring_empty_def Let_def
      split: option.splits list.splits if_splits)

function ChunkedFIFO_drain :: "nat \<Rightarrow> 'a ChunkedFIFO \<Rightarrow> 'a list" where
  "ChunkedFIFO_drain tid s =
     (case ChunkedFIFO_pop tid s of (None, _) \<Rightarrow> [] | (Some v, s') \<Rightarrow> v # ChunkedFIFO_drain tid s')"
  by pat_completeness auto
termination
proof (relation "measure (\<lambda>(tid, s). length (ChunkedFIFO_items tid s))")
  show "wf (measure (\<lambda>(tid, s). length (ChunkedFIFO_items tid s)))" by simp
next
  fix tid and s :: "'a ChunkedFIFO" and x y v
  assume "(x, y) = ChunkedFIFO_pop tid s" "x = Some v"
  then have "ChunkedFIFO_pop tid s = (Some v, y)" by simp
  from ChunkedFIFO_pop_items [OF this]
  show "((tid, y), (tid, s)) \<in> measure (\<lambda>(tid, s). length (ChunkedFIFO_items tid s))"
    by simp
qed

declare ChunkedFIFO_drain.simps [simp del]


text \<open>No chunk on the shared list is empty.\<close>

definition ChunkedFIFO_inv :: "'a ChunkedFIFO \<Rightarrow> bool" where
  "ChunkedFIFO_inv s = list_all (\<lambda>c. c \<noteq> []) (head s)"

subsection \<open>Facts about LIFO, sFIFO and ChunkedFIFO\<close>

lemma run_calls_mset:
  assumes push: "\<And>v s. I s \<Longrightarrow> I (push v s) \<and> items (push v s) = items s + {#v#}"
    and pop: "\<And>s r s'. I s \<Longrightarrow> pop s = (r, s') \<Longrightarrow>
                I s' \<and> items s = items s' + (case r of None \<Rightarrow> {#} | Some v \<Rightarrow> {#v#})"
  shows "I s \<Longrightarrow> run_calls push pop cs s = (vs, s') \<Longrightarrow>
           I s' \<and> mset vs + items s' = items s + mset (pushed cs)"
proof (induction cs arbitrary: s vs s')
  case Nil
  then show ?case by simp
next
  case (Cons c cs)
  show ?case
  proof (cases c)
    case (Push v)
    with Cons.prems have "run_calls push pop cs (push v s) = (vs, s')" by simp
    moreover have "I (push v s)" "items (push v s) = items s + {#v#}"
      using push [OF Cons.prems(1)] by simp_all
    ultimately show ?thesis
      using Cons.IH [of "push v s" vs s'] Push by simp
  next
    case Pop
    obtain r s1 where p: "pop s = (r, s1)" by (cases "pop s")
    have s1: "I s1" "items s = items s1 + (case r of None \<Rightarrow> {#} | Some v \<Rightarrow> {#v#})"
      using pop [OF Cons.prems(1) p] by simp_all
    show ?thesis
    proof (cases r)
      case None
      with Cons.prems p Pop have "run_calls push pop cs s1 = (vs, s')" by simp
      then show ?thesis using Cons.IH [OF s1(1)] s1(2) None Pop by simp
    next
      case (Some v)
      obtain ws where r: "run_calls push pop cs s1 = (ws, s')" and vs: "vs = v # ws"
        using Cons.prems p Pop Some by (auto split: prod.splits)
      show ?thesis using Cons.IH [OF s1(1) r] s1(2) Some Pop vs by simp
    qed
  qed
qed

lemma LIFO_drain_rev: "LIFO_drain wl = rev wl"
proof (induction wl rule: rev_induct)
  case Nil
  show ?case by (subst LIFO_drain.simps) (simp add: LIFO_pop_def)
next
  case (snoc x xs)
  have "LIFO_drain (xs @ [x]) = x # LIFO_drain xs"
    by (subst LIFO_drain.simps) (simp add: LIFO_pop_def)
  with snoc show ?case by simp
qed

lemma sFIFO_drain_id: "sFIFO_drain wl = wl"
proof (induction wl)
  case Nil
  show ?case by (subst sFIFO_drain.simps) (simp add: sFIFO_pop_def)
next
  case (Cons x xs)
  have "sFIFO_drain (x # xs) = x # sFIFO_drain xs"
    by (subst sFIFO_drain.simps) (simp add: sFIFO_pop_def)
  with Cons show ?case by simp
qed

lemma pushChunk_append: "pushChunk C h = h @ (case C of None \<Rightarrow> [] | Some c \<Rightarrow> [c])"
  by (induction h) simp_all

lemma ChunkedFIFO_push_items:
  "0 < N \<Longrightarrow> ChunkedFIFO_push N tid v s = (retval, s') \<Longrightarrow>
     retval \<and> ChunkedFIFO_items tid s' = ChunkedFIFO_items tid s @ [v]"
  by (auto simp: ChunkedFIFO_push_def ChunkedFIFO_items_def chunk_items_def pushChunk_append
        ring_push_back_def ring_full_def Let_def
      split: option.splits if_splits)

lemma ChunkedFIFO_push_inv:
  "0 < N \<Longrightarrow> ChunkedFIFO_inv s \<Longrightarrow> ChunkedFIFO_inv (snd (ChunkedFIFO_push N tid v s))"
  by (auto simp: ChunkedFIFO_push_def ChunkedFIFO_inv_def pushChunk_append
        ring_push_back_def ring_full_def Let_def
      split: option.splits if_splits)

lemma ChunkedFIFO_pop_inv:
  "ChunkedFIFO_inv s \<Longrightarrow> ChunkedFIFO_inv (snd (ChunkedFIFO_pop tid s))"
  by (auto simp: ChunkedFIFO_pop_def ChunkedFIFO_inv_def popChunk_def
        ring_pop_front_def ring_empty_def Let_def
      split: option.splits list.splits if_splits)

lemma ChunkedFIFO_pop_None:
  "ChunkedFIFO_inv s \<Longrightarrow> fst (ChunkedFIFO_pop tid s) = None \<Longrightarrow> ChunkedFIFO_items tid s = []"
  by (auto simp: ChunkedFIFO_pop_def ChunkedFIFO_inv_def ChunkedFIFO_items_def chunk_items_def
        popChunk_def ring_pop_front_def ring_empty_def Let_def
      split: option.splits list.splits if_splits)

lemma ChunkedFIFO_drain_items:
  "ChunkedFIFO_inv s \<Longrightarrow> ChunkedFIFO_drain tid s = ChunkedFIFO_items tid s"
proof (induction "length (ChunkedFIFO_items tid s)" arbitrary: s)
  case 0
  obtain r s' where p: "ChunkedFIFO_pop tid s = (r, s')" by (cases "ChunkedFIFO_pop tid s")
  have "r = None"
    using ChunkedFIFO_pop_items [OF p] 0 by (cases r) simp_all
  then have "ChunkedFIFO_drain tid s = []"
    using p by (subst ChunkedFIFO_drain.simps) simp
  with 0 show ?case by simp
next
  case (Suc k)
  obtain r s' where p: "ChunkedFIFO_pop tid s = (r, s')" by (cases "ChunkedFIFO_pop tid s")
  have "r \<noteq> None"
  proof
    assume "r = None"
    then have "ChunkedFIFO_items tid s = []"
      using ChunkedFIFO_pop_None [OF Suc.prems, of tid] p by simp
    with Suc.hyps(2) show False by simp
  qed
  then obtain v where r: "r = Some v" by auto
  have items: "ChunkedFIFO_items tid s = v # ChunkedFIFO_items tid s'"
    using ChunkedFIFO_pop_items [OF p] r by simp
  have inv': "ChunkedFIFO_inv s'"
    using ChunkedFIFO_pop_inv [OF Suc.prems, of tid] p by simp
  have "ChunkedFIFO_drain tid s = v # ChunkedFIFO_drain tid s'"
    using p r by (subst ChunkedFIFO_drain.simps) simp
  also have "ChunkedFIFO_drain tid s' = ChunkedFIFO_items tid s'"
    using Suc.hyps(1) [of s'] Suc.hyps(2) items inv' by simp
  finally show ?case using items by simp
qed

lemma LIFO_run_mset:
  "run_calls LIFO_push LIFO_pop cs s = (vs, s') \<Longrightarrow> mset vs + mset s' = mset s + mset (pushed cs)"
proof -
  assume r: "run_calls LIFO_push LIFO_pop cs s = (vs, s')"
  have "True \<and> mset vs + mset s' = mset s + mset (pushed cs)"
  proof (rule run_calls_mset [where I = "\<lambda>_. True" and push = LIFO_push and pop = LIFO_pop
      and items = mset, OF _ _ _ r])
    show "True \<and> mset (LIFO_push v s) = mset s + {#v#}" for v and s :: "'a list"
      by (simp add: LIFO_push_def)
    show "LIFO_pop s = (r, s') \<Longrightarrow>
            True \<and> mset s = mset s' + (case r of None \<Rightarrow> {#} | Some v \<Rightarrow> {#v#})"
      for s s' :: "'a list" and r
      by (cases s rule: rev_cases) (auto simp: LIFO_pop_def)
  qed simp
  then show ?thesis by simp
qed

lemma sFIFO_run_mset:
  "run_calls sFIFO_push sFIFO_pop cs s = (vs, s') \<Longrightarrow> mset vs + mset s' = mset s + mset (pushed cs)"
proof -
  assume r: "run_calls sFIFO_push sFIFO_pop cs s = (vs, s')"
  have "True \<and> mset vs + mset s' = mset s + mset (pushed cs)"
  proof (rule run_calls_mset [where I = "\<lambda>_. True" and push = sFIFO_push and pop = sFIFO_pop
      and items = mset, OF _ _ _ r])
    show "True \<and> mset (sFIFO_push v s) = mset s + {#v#}" for v and s :: "'a list"
      by (simp add: sFIFO_push_def)
    show "sFIFO_pop s = (r, s') \<Longrightarrow>
            True \<and> mset s = mset s' + (case r of None \<Rightarrow> {#} | Some v \<Rightarrow> {#v#})"
      for s s' :: "'a list" and r
      by (cases s) (auto simp: sFIFO_pop_def)
  qed simp
  then show ?thesis by simp
qed

lemma ChunkedFIFO_run_mset:
  assumes N: "0 < N"
    and r: "run_calls (\<lambda>v s. snd (ChunkedFIFO_push N tid v s)) (ChunkedFIFO_pop tid) cs s = (vs, s')"
    and inv: "ChunkedFIFO_inv s"
  shows "ChunkedFIFO_inv s' \<and>
         mset vs + mset (ChunkedFIFO_items tid s') = mset (ChunkedFIFO_items tid s) + mset (pushed cs)"
proof (rule run_calls_mset [where I = ChunkedFIFO_inv and items = "\<lambda>s. mset (ChunkedFIFO_items tid s)",
      OF _ _ inv r])
  show "ChunkedFIFO_inv (snd (ChunkedFIFO_push N tid v s)) \<and>
        mset (ChunkedFIFO_items tid (snd (ChunkedFIFO_push N tid v s))) =
        mset (ChunkedFIFO_items tid s) + {#v#}" if "ChunkedFIFO_inv s" for v s
    using ChunkedFIFO_push_inv [OF N that, of tid v]
      ChunkedFIFO_push_items [OF N, of tid v s "fst (ChunkedFIFO_push N tid v s)"
        "snd (ChunkedFIFO_push N tid v s)"]
    by simp
  show "ChunkedFIFO_inv s' \<and>
        mset (ChunkedFIFO_items tid s) =
        mset (ChunkedFIFO_items tid s') + (case r of None \<Rightarrow> {#} | Some v \<Rightarrow> {#v#})"
    if "ChunkedFIFO_inv s" "ChunkedFIFO_pop tid s = (r, s')" for s r s'
    using ChunkedFIFO_pop_inv [OF that(1), of tid] ChunkedFIFO_pop_items [OF that(2)] that(2)
    by (cases r) simp_all
qed

text \<open>
  Claim C5. One worker makes any sequence of \<^verbatim>\<open>push\<close> and \<^verbatim>\<open>pop\<close> calls on a
  freshly constructed LIFO, sFIFO or ChunkedFIFO (of chunk size at least 1), and then
  pops until \<^verbatim>\<open>pop\<close> fails. The items returned by all successful pops, as a multiset,
  are the items pushed.
\<close>

theorem worklists_pop_what_was_pushed:
  "(case run_calls LIFO_push LIFO_pop cs new_LIFO of
      (vs, wl) \<Rightarrow> mset vs + mset (LIFO_drain wl) = mset (pushed cs))
   \<and> (case run_calls sFIFO_push sFIFO_pop cs new_sFIFO of
      (vs, wl) \<Rightarrow> mset vs + mset (sFIFO_drain wl) = mset (pushed cs))
   \<and> (0 < N \<longrightarrow>
       (case run_calls (\<lambda>v s. snd (ChunkedFIFO_push N tid v s)) (ChunkedFIFO_pop tid) cs new_ChunkedFIFO of
          (vs, wl) \<Rightarrow> mset vs + mset (ChunkedFIFO_drain tid wl) = mset (pushed cs)))"
proof (intro conjI impI)
  show "case run_calls LIFO_push LIFO_pop cs new_LIFO of
      (vs, wl) \<Rightarrow> mset vs + mset (LIFO_drain wl) = mset (pushed cs)"
    using LIFO_run_mset [of cs new_LIFO]
    by (auto simp: LIFO_drain_rev new_LIFO_def split: prod.splits)
  show "case run_calls sFIFO_push sFIFO_pop cs new_sFIFO of
      (vs, wl) \<Rightarrow> mset vs + mset (sFIFO_drain wl) = mset (pushed cs)"
    using sFIFO_run_mset [of cs new_sFIFO]
    by (auto simp: sFIFO_drain_id new_sFIFO_def split: prod.splits)
  assume N: "0 < N"
  have inv0: "ChunkedFIFO_inv (new_ChunkedFIFO :: 'a ChunkedFIFO)"
    by (simp add: ChunkedFIFO_inv_def new_ChunkedFIFO_def)
  have items0: "ChunkedFIFO_items tid (new_ChunkedFIFO :: 'a ChunkedFIFO) = []"
    by (simp add: ChunkedFIFO_items_def new_ChunkedFIFO_def chunk_items_def)
  show "case run_calls (\<lambda>v s. snd (ChunkedFIFO_push N tid v s)) (ChunkedFIFO_pop tid) cs new_ChunkedFIFO of
          (vs, wl) \<Rightarrow> mset vs + mset (ChunkedFIFO_drain tid wl) = mset (pushed cs)"
    using ChunkedFIFO_run_mset [OF N _ inv0, of tid cs] items0
    by (auto simp: ChunkedFIFO_drain_items split: prod.splits)
qed

theorem worklists_pop_what_was_pushed_witness:
  "(0::nat) < 2
   \<and> fst (run_calls (\<lambda>v s. snd (ChunkedFIFO_push 2 0 v s)) (ChunkedFIFO_pop 0)
        [Push (1::nat), Push 2, Pop, Push 3, Push 4] new_ChunkedFIFO) = [1]
   \<and> (case run_calls (\<lambda>v s. snd (ChunkedFIFO_push 2 0 v s)) (ChunkedFIFO_pop 0)
        [Push (1::nat), Push 2, Pop, Push 3, Push 4] new_ChunkedFIFO of
         (vs, wl) \<Rightarrow> mset vs + mset (ChunkedFIFO_drain 0 wl) = {#1, 2, 3, 4#})
   \<and> (case run_calls LIFO_push LIFO_pop [Push (1::nat), Push 2, Pop, Push 3, Push 4] new_LIFO of
         (vs, wl) \<Rightarrow> mset vs + mset (LIFO_drain wl) = {#1, 2, 3, 4#})
   \<and> (case run_calls sFIFO_push sFIFO_pop [Push (1::nat), Push 2, Pop, Push 3, Push 4] new_sFIFO of
         (vs, wl) \<Rightarrow> mset vs + mset (sFIFO_drain wl) = {#1, 2, 3, 4#})"
proof -
  have "fst (run_calls (\<lambda>v s. snd (ChunkedFIFO_push 2 0 v s)) (ChunkedFIFO_pop 0)
        [Push (1::nat), Push 2, Pop, Push 3, Push 4] new_ChunkedFIFO) = [1]"
    by code_simp
  then show ?thesis
    using worklists_pop_what_was_pushed [of "[Push (1::nat), Push 2, Pop, Push 3, Push 4]" 2 0]
    by simp
qed

text \<open>
  Claim C2 fails on the code. Worker 0 seeds a fresh ChunkedFIFO with the one item 1:
  \<^verbatim>\<open>fill_initial\<close> leaves the item in a chunk on the shared list, with no consumer and
  no producer chunk. \<^verbatim>\<open>empty()\<close> returns true, and the next \<^verbatim>\<open>pop()\<close> returns
  the item. The last test of \<^verbatim>\<open>empty\<close> is inverted: on the fresh worklist, where
  nothing is reachable, it returns false.
\<close>

theorem ChunkedFIFO_empty_with_items_on_shared_list:
  "ChunkedFIFO_empty 0 (ChunkedFIFO_fill_initial 64 0 [1::nat] new_ChunkedFIFO) = True
   \<and> ChunkedFIFO_items 0 (ChunkedFIFO_fill_initial 64 0 [1::nat] new_ChunkedFIFO) = [1]
   \<and> head (ChunkedFIFO_fill_initial 64 0 [1::nat] new_ChunkedFIFO) = [[1]]
   \<and> fst (ChunkedFIFO_pop 0 (ChunkedFIFO_fill_initial 64 0 [1::nat] new_ChunkedFIFO)) = Some 1
   \<and> ChunkedFIFO_empty 0 (new_ChunkedFIFO :: nat ChunkedFIFO) = False
   \<and> ChunkedFIFO_items 0 (new_ChunkedFIFO :: nat ChunkedFIFO) = []"
  by code_simp

section \<open>The worklist ordered by an integer metric\<close>















subsection \<open>Facts about FIFO\<close>


lemma popEmptyChunksLocked_items:
  "FIFO_items (popEmptyChunksLocked q) = FIFO_items q"
  by (induction q rule: popEmptyChunksLocked.induct) (simp_all add: FIFO_items_def ring_empty_def)

lemma popEmptyChunksLocked_head:
  "fst (popEmptyChunksLocked q) = [] \<Longrightarrow> FIFO_items q = []"
  by (induction q rule: popEmptyChunksLocked.induct)
     (simp_all add: FIFO_items_def ring_empty_def split: if_splits)

lemma FIFO_pop_items:
  "FIFO_pop q = (r, q') \<Longrightarrow>
     FIFO_items q = (case r of None \<Rightarrow> [] | Some v \<Rightarrow> [v]) @ FIFO_items q'"
  using popEmptyChunksLocked_items [of q]
  by (auto simp: FIFO_pop_def ring_pop_front_def FIFO_items_def split: prod.splits list.splits)

lemma FIFO_pop_None:
  "FIFO_pop q = (None, q') \<Longrightarrow> FIFO_items q = [] \<and> FIFO_items q' = []"
  using popEmptyChunksLocked_head [of q] FIFO_pop_items [of q None q']
  by (auto simp: FIFO_pop_def ring_pop_front_def split: prod.splits list.splits)

lemma FIFO_pop_Some:
  "FIFO_pop q = (Some v, q') \<Longrightarrow> FIFO_items q = v # FIFO_items q'"
  using FIFO_pop_items [of q "Some v" q'] by simp

lemma FIFO_pop_eq:
  "FIFO_pop q = (r, q') \<Longrightarrow>
     (case FIFO_items q of [] \<Rightarrow> r = None \<and> FIFO_items q' = []
      | x # xs \<Rightarrow> r = Some x \<and> FIFO_items q' = xs)"
  by (cases r) (auto dest: FIFO_pop_None FIFO_pop_Some)


subsection \<open>Facts about the worklist ordered by an integer metric\<close>
















subsection \<open>One worker: the cursor is at the lowest bucket that holds an item\<close>




























section \<open>The stealing local worklist\<close>

text \<open>
  \<^verbatim>\<open>StealingLocalWL<T, ContainerTy = FIFO<T>>\<close>, with the default container:
  \<^verbatim>\<open>PerCPU<ContainerTy> data\<close> is a function of the worker, \<^verbatim>\<open>data.get()\<close> the
  entry of the calling worker \<open>tid\<close>.
\<close>

type_synonym 'a StealingLocalWL = "nat \<Rightarrow> 'a FIFO"

text \<open>
  Modelled from the spec: \<^verbatim>\<open>PerCPU::getNext()\<close> is declared in
  \<^verbatim>\<open>Galois/Runtime/PerCPU.h\<close>, which is not among the sources. The specification
  calls its result the queue of "the rotating next worker": with \<open>num\<close> workers, worker
  \<open>(tid + 1) mod num\<close>. \<^verbatim>\<open>pop\<close> below takes the worker that \<^verbatim>\<open>getNext()\<close> resolves
  to as its argument \<open>nxt\<close>, so that nothing proved of it depends on this reading.
\<close>

definition getNext :: "nat \<Rightarrow> nat \<Rightarrow> nat" where
  "getNext num tid = (tid + 1) mod num"

definition new_StealingLocalWL :: "'a StealingLocalWL" where
  "new_StealingLocalWL = (\<lambda>_. new_FIFO)"

definition StealingLocalWL_push :: "nat \<Rightarrow> 'a \<Rightarrow> 'a StealingLocalWL \<Rightarrow> 'a StealingLocalWL" where
  "StealingLocalWL_push tid v s = s(tid := FIFO_push v (s tid))"

definition StealingLocalWL_pop ::
  "nat \<Rightarrow> nat \<Rightarrow> 'a StealingLocalWL \<Rightarrow> 'a option \<times> 'a StealingLocalWL" where
  "StealingLocalWL_pop nxt tid s =
     (case FIFO_pop (s tid) of
        (Some v, q) \<Rightarrow> (Some v, s(tid := q))
      | (None, q) \<Rightarrow>
          (let s = s(tid := q)
           in case FIFO_pop (s nxt) of (ret, q') \<Rightarrow> (ret, s(nxt := q'))))"

text \<open>\<^verbatim>\<open>bool empty() { return data.get().empty(); }\<close>\<close>

definition StealingLocalWL_empty :: "nat \<Rightarrow> 'a StealingLocalWL \<Rightarrow> bool \<times> 'a StealingLocalWL" where
  "StealingLocalWL_empty tid s = (case FIFO_empty (s tid) of (ret, q) \<Rightarrow> (ret, s(tid := q)))"

text \<open>Two workers: worker 0 holds nothing, worker 1 holds the item 4.\<close>

definition StealingLocalWL_example :: "nat StealingLocalWL" where
  "StealingLocalWL_example = (\<lambda>_. new_FIFO)(1 := ([4], []))"

subsection \<open>Facts about the stealing local worklist\<close>

lemma FIFO_empty_items: "fst (FIFO_empty q) = (FIFO_items q = [])"
proof -
  obtain h cs where p: "popEmptyChunksLocked q = (h, cs)" by (cases "popEmptyChunksLocked q")
  have i: "FIFO_items q = h @ concat cs"
    using popEmptyChunksLocked_items [of q] p by (simp add: FIFO_items_def)
  show ?thesis
  proof (cases "h = []")
    case True
    then have "FIFO_items q = []" using popEmptyChunksLocked_head [of q] p by simp
    with True p show ?thesis by (simp add: FIFO_empty_def ring_empty_def)
  next
    case False
    with i p show ?thesis by (simp add: FIFO_empty_def ring_empty_def)
  qed
qed

text \<open>
  Claim C10. \<^verbatim>\<open>empty()\<close> of the stealing local worklist returns what the calling
  worker's own queue reports, which is true exactly when that queue holds no item, and
  nothing else of the worklist matters to it. So when the caller's queue holds nothing
  and the queue of the next worker \<open>nxt\<close> holds \<open>x\<close> first, \<^verbatim>\<open>empty()\<close> returns true although
  \<^verbatim>\<open>pop()\<close> returns \<open>x\<close>, stolen from the next worker.
\<close>

theorem StealingLocalWL_empty_local_only:
  "fst (StealingLocalWL_empty tid s) = fst (FIFO_empty (s tid))
   \<and> fst (StealingLocalWL_empty tid s) = (FIFO_items (s tid) = [])
   \<and> (\<forall>s'. s' tid = s tid \<longrightarrow> fst (StealingLocalWL_empty tid s') = fst (StealingLocalWL_empty tid s))
   \<and> (FIFO_items (s tid) = [] \<and> FIFO_items (s (nxt)) = x # xs \<longrightarrow>
        fst (StealingLocalWL_empty tid s) \<and> fst (StealingLocalWL_pop nxt tid s) = Some x)"
proof (intro conjI allI impI)
  show e: "fst (StealingLocalWL_empty tid s) = fst (FIFO_empty (s tid))"
    by (simp add: StealingLocalWL_empty_def split: prod.splits)
  then show e2: "fst (StealingLocalWL_empty tid s) = (FIFO_items (s tid) = [])"
    by (simp add: FIFO_empty_items)
  show "fst (StealingLocalWL_empty tid s') = fst (StealingLocalWL_empty tid s)" if "s' tid = s tid" for s'
    using that by (simp add: StealingLocalWL_empty_def split: prod.splits)
  assume a: "FIFO_items (s tid) = [] \<and> FIFO_items (s (nxt)) = x # xs"
  then show "fst (StealingLocalWL_empty tid s)" using e2 by simp
  from a have ne: "nxt \<noteq> tid" by auto
  obtain r q where p: "FIFO_pop (s tid) = (r, q)" by (cases "FIFO_pop (s tid)")
  with a have r: "r = None" using FIFO_pop_eq [OF p] by simp
  obtain r' q' where p': "FIFO_pop (s (nxt)) = (r', q')"
    by (cases "FIFO_pop (s (nxt))")
  with a have r': "r' = Some x" using FIFO_pop_eq [OF p'] by simp
  show "fst (StealingLocalWL_pop nxt tid s) = Some x"
    using p r p' r' ne by (simp add: StealingLocalWL_pop_def Let_def)
qed

theorem StealingLocalWL_empty_local_only_witness:
  "FIFO_items (StealingLocalWL_example 0) = []
   \<and> FIFO_items (StealingLocalWL_example (getNext 2 0)) = [4]
   \<and> fst (StealingLocalWL_empty 0 StealingLocalWL_example)
   \<and> fst (StealingLocalWL_pop (getNext 2 0) 0 StealingLocalWL_example) = Some 4"
proof -
  have a: "FIFO_items (StealingLocalWL_example 0) = []"
    "FIFO_items (StealingLocalWL_example (getNext 2 0)) = 4 # []"
    by (simp_all add: StealingLocalWL_example_def new_FIFO_def FIFO_items_def getNext_def)
  note t = StealingLocalWL_empty_local_only [of 0 StealingLocalWL_example "getNext 2 0" 4 "[]"]
  from t a have "fst (StealingLocalWL_empty 0 StealingLocalWL_example) \<and>
      fst (StealingLocalWL_pop (getNext 2 0) 0 StealingLocalWL_example) = Some 4"
    by blast
  with a show ?thesis by simp
qed

section \<open>The for-each executor\<close>

text \<open>
  The traits of a loop, fixed when the executor is instantiated:
  \<^verbatim>\<open>needsPush = !has_trait<no_pushes_tag>\<close>,
  \<^verbatim>\<open>needsAborts = !has_trait<disable_conflict_detection_tag>\<close>,
  \<^verbatim>\<open>needsPia = has_trait<per_iter_alloc_tag>\<close>,
  \<^verbatim>\<open>needsBreak = has_trait<parallel_break_tag>\<close>.
\<close>

record Traits =
  needsPush :: bool
  needsAborts :: bool
  needsPia :: bool
  needsBreak :: bool

text \<open>
  The collaborators of the executor whose headers are not among the sources (the conflict
  context of \<^verbatim>\<open>katana/Context.h\<close>, the termination detector of
  \<^verbatim>\<open>katana/TerminationDetection.h\<close>) are known by the calls they receive. The
  executor's state keeps the calls of one worker in order, together with the bulk pushes
  into the worklist.
\<close>

datatype 'a event =
  StartIteration
| CommitIteration
| CancelIteration
| WlPush "'a list"
| SignalWorked bool

text \<open>
  What one call of the user's operator \<^verbatim>\<open>tld.function(val, tld.facing.data())\<close> does
  through the user context before it returns or a conflict interrupts it: the resources
  it acquires, the bytes it takes from the per-iteration allocator, the items it pushes,
  whether it asks for a break, and whether it meets a conflict.
\<close>

record 'a op_result =
  op_acquired :: "nat list"
  op_alloc :: nat
  op_pushes :: "'a list"
  op_break :: bool
  op_conflict :: bool

text \<open>
  What stays fixed during a loop: the traits; the worklist type \<^verbatim>\<open>WorkListTy\<close>, by its
  bulk \<^verbatim>\<open>push(begin, end)\<close> and its \<^verbatim>\<open>pop()\<close>; the operator, whose result may
  differ from call to call and is therefore a function of the item and of the number of
  the iteration; the thread pool, the calling worker and \<^verbatim>\<open>activeThreads\<close>.
\<close>

record ('a, 'w) Env =
  traits :: Traits
  wl_push :: "'a list \<Rightarrow> 'w \<Rightarrow> 'w"
  wl_pop :: "'w \<Rightarrow> 'a option \<times> 'w"
  origFunction :: "'a \<Rightarrow> nat \<Rightarrow> 'a op_result"
  pool :: ThreadPool
  TID :: u32
  activeThreads :: nat

text \<open>
  The executor as one worker sees it: the fields \<^verbatim>\<open>wl\<close>, \<^verbatim>\<open>aborted\<close> and
  \<^verbatim>\<open>broke\<close>, and the worker's \<^verbatim>\<open>ThreadLocalData\<close>: the push buffer and the
  per-iteration allocator of \<^verbatim>\<open>tld.facing\<close> (the bytes handed out since the last
  reset), the acquisitions logged by \<^verbatim>\<open>tld.ctx\<close>, the counters of
  \<^verbatim>\<open>LoopStatistics\<close>, and the calls received by the collaborators.
\<close>

record ('a, 'w) ForEachExecutor =
  wl :: 'w
  aborted :: "'a AbortHandler"
  broke :: bool
  pushBuffer :: "'a list"
  alloc :: nat
  ctx :: "nat list"
  stat_iterations :: nat
  stat_conflicts :: nat
  stat_pushes :: nat
  trace :: "'a event list"

text \<open>
  \<^verbatim>\<open>bool couldAbort = needsAborts && activeThreads > 1;\<close>
\<close>

definition couldAbort :: "('a, 'w) Env \<Rightarrow> bool" where
  "couldAbort E = (needsAborts (traits E) \<and> activeThreads E > 1)"

text \<open>
  Modelled from the spec: \<^verbatim>\<open>LoopStatistics\<close> (\<^verbatim>\<open>katana/LoopStatistics.h\<close>) is not
  among the sources. "Per-worker counters: iterations committed, conflicts, pushes."
\<close>

definition inc_pushes :: "nat \<Rightarrow> ('a, 'w) ForEachExecutor \<Rightarrow> ('a, 'w) ForEachExecutor" where
  "inc_pushes n st = st\<lparr>stat_pushes := stat_pushes st + n\<rparr>"

definition inc_conflicts :: "('a, 'w) ForEachExecutor \<Rightarrow> ('a, 'w) ForEachExecutor" where
  "inc_conflicts st = st\<lparr>stat_conflicts := stat_conflicts st + 1\<rparr>"

definition inc_iterations :: "('a, 'w) ForEachExecutor \<Rightarrow> ('a, 'w) ForEachExecutor" where
  "inc_iterations st = st\<lparr>stat_iterations := stat_iterations st + 1\<rparr>"

text \<open>
  Modelled from the spec: \<^verbatim>\<open>UserContextAccess\<close> (\<^verbatim>\<open>katana/UserContextAccess.h\<close>) is
  not among the sources. The user context "exposes the per-iteration allocator, a push
  buffer (items the operator wants to enqueue on success), and a break flag"; the
  allocator is "a bump arena reset after each commit or abort".
\<close>

definition resetAlloc :: "('a, 'w) ForEachExecutor \<Rightarrow> ('a, 'w) ForEachExecutor" where
  "resetAlloc st = st\<lparr>alloc := 0\<rparr>"

definition resetPushBuffer :: "('a, 'w) ForEachExecutor \<Rightarrow> ('a, 'w) ForEachExecutor" where
  "resetPushBuffer st = st\<lparr>pushBuffer := []\<rparr>"

text \<open>
  Modelled from the spec: \<^verbatim>\<open>SimpleRuntimeContext\<close> (\<^verbatim>\<open>katana/Context.h\<close>) is not among
  the sources. "Between start and commit or cancel, every acquisition performed on a
  shared resource is logged; cancel releases all logged acquisitions"; so does commit.
\<close>

definition ctx_startIteration :: "('a, 'w) ForEachExecutor \<Rightarrow> ('a, 'w) ForEachExecutor" where
  "ctx_startIteration st = st\<lparr>trace := trace st @ [StartIteration]\<rparr>"

definition ctx_commitIteration :: "('a, 'w) ForEachExecutor \<Rightarrow> ('a, 'w) ForEachExecutor" where
  "ctx_commitIteration st = st\<lparr>ctx := [], trace := trace st @ [CommitIteration]\<rparr>"

definition ctx_cancelIteration :: "('a, 'w) ForEachExecutor \<Rightarrow> ('a, 'w) ForEachExecutor" where
  "ctx_cancelIteration st = st\<lparr>ctx := [], trace := trace st @ [CancelIteration]\<rparr>"

text \<open>
  Modelled from the spec: \<^verbatim>\<open>TerminationDetection\<close> is not among the sources. The
  detector only receives \<^verbatim>\<open>SignalWorked(didWork)\<close> here.
\<close>

definition term_SignalWorked :: "bool \<Rightarrow> ('a, 'w) ForEachExecutor \<Rightarrow> ('a, 'w) ForEachExecutor" where
  "term_SignalWorked didWork st = st\<lparr>trace := trace st @ [SignalWorked didWork]\<rparr>"

text \<open>
  \<^verbatim>\<open>wl.push(begin, end)\<close>
\<close>

definition wl_push_range ::
  "('a, 'w) Env \<Rightarrow> 'a list \<Rightarrow> ('a, 'w) ForEachExecutor \<Rightarrow> ('a, 'w) ForEachExecutor" where
  "wl_push_range E items st = st\<lparr>wl := wl_push E items (wl st), trace := trace st @ [WlPush items]\<rparr>"

text \<open>
  \<^verbatim>\<open>void fastPushBack(PushBufferTy& x) { wl.push(x.begin(), x.end()); x.clear(); }\<close>
\<close>

definition fastPushBack :: "('a, 'w) Env \<Rightarrow> ('a, 'w) ForEachExecutor \<Rightarrow> ('a, 'w) ForEachExecutor" where
  "fastPushBack E st = (let st = wl_push_range E (pushBuffer st) st in st\<lparr>pushBuffer := []\<rparr>)"

text \<open>
  Modelled from the spec: the \<^verbatim>\<open>push\<close> of the user context is not among the sources. It
  appends to the push buffer, and hands the buffer to the fast-push shortcut when
  \<^verbatim>\<open>go\<close> installed one: \<^verbatim>\<open>if (needsPush && !couldAbort) setFastPushBack(...)\<close>.
\<close>

definition user_push :: "('a, 'w) Env \<Rightarrow> 'a \<Rightarrow> ('a, 'w) ForEachExecutor \<Rightarrow> ('a, 'w) ForEachExecutor" where
  "user_push E v st =
     (let st = st\<lparr>pushBuffer := pushBuffer st @ [v]\<rparr>
      in if needsPush (traits E) \<and> \<not> couldAbort E then fastPushBack E st else st)"

definition commitIteration :: "('a, 'w) Env \<Rightarrow> ('a, 'w) ForEachExecutor \<Rightarrow> ('a, 'w) ForEachExecutor" where
  "commitIteration E st =
     (let st = (if needsPush (traits E)
                then (let pb = pushBuffer st;
                          n = length pb
                      in if n \<noteq> 0
                         then (let st = inc_pushes n st;
                                   st = wl_push_range E pb st
                               in st\<lparr>pushBuffer := []\<rparr>)
                         else st)
                else st);
          st = (if needsPia (traits E) then resetAlloc st else st);
          st = (if needsAborts (traits E) then ctx_commitIteration st else st)
      in st)"

text \<open>
  \<^verbatim>\<open>aborted.value(item)\<close> and \<^verbatim>\<open>aborted.push(item)\<close> are overloaded: an item popped from
  the main worklist is a plain value (\<open>Inl\<close>), an item popped from the abort handler's
  queue is a retry record (\<open>Inr\<close>).
\<close>

fun aborted_value :: "'a + 'a Item \<Rightarrow> 'a" where
  "aborted_value (Inl v) = v"
| "aborted_value (Inr item) = val item"

fun aborted_push :: "('a, 'w) Env \<Rightarrow> 'a + 'a Item \<Rightarrow> 'a AbortHandler \<Rightarrow> 'a AbortHandler" where
  "aborted_push E (Inl v) h = push_val (TID E) v h"
| "aborted_push E (Inr item) h = push_item (pool E) (TID E) item h"

text \<open>
  \<^verbatim>\<open>abortIteration\<close>. Its first line, \<^verbatim>\<open>KATANA_LOG_DEBUG_ASSERT(needsAborts)\<close>, is the
  hypothesis of the theorem about it.
\<close>

definition abortIteration ::
  "('a, 'w) Env \<Rightarrow> 'a + 'a Item \<Rightarrow> ('a, 'w) ForEachExecutor \<Rightarrow> ('a, 'w) ForEachExecutor" where
  "abortIteration E item st =
     (let st = ctx_cancelIteration st;
          st = inc_conflicts st;
          st = st\<lparr>aborted := aborted_push E item (aborted st)\<rparr>;
          st = (if needsPush (traits E) then resetPushBuffer st else st);
          st = (if needsPia (traits E) then resetAlloc st else st)
      in st)"

text \<open>
  A call of the operator returns, or a conflict leaves it by the non-local control
  transfer (\<^verbatim>\<open>longjmp\<close> or the exception \<^verbatim>\<open>ConflictFlag\<close>). Conflicts are detected
  only for a worker whose thread context is set: \<^verbatim>\<open>if (couldAbort) setThreadContext(&tld.ctx)\<close>.
\<close>

datatype outcome = Returned | Conflict

definition call_function ::
  "('a, 'w) Env \<Rightarrow> 'a \<Rightarrow> ('a, 'w) ForEachExecutor \<Rightarrow> outcome \<times> ('a, 'w) ForEachExecutor" where
  "call_function E v st =
     (let r = origFunction E v (stat_iterations st);
          st = (if couldAbort E then st\<lparr>ctx := ctx st @ op_acquired r\<rparr> else st);
          st = st\<lparr>alloc := alloc st + op_alloc r\<rparr>;
          st = fold (user_push E) (op_pushes r) st;
          st = (if needsBreak (traits E) \<and> op_break r then st\<lparr>broke := True\<rparr> else st)
      in (if couldAbort E \<and> op_conflict r then Conflict else Returned, st))"

definition doProcess ::
  "('a, 'w) Env \<Rightarrow> 'a \<Rightarrow> ('a, 'w) ForEachExecutor \<Rightarrow> outcome \<times> ('a, 'w) ForEachExecutor" where
  "doProcess E v st =
     (let st = (if needsAborts (traits E) then ctx_startIteration st else st);
          st = inc_iterations st
      in case call_function E v st of
           (Conflict, st) \<Rightarrow> (Conflict, st)
         | (Returned, st) \<Rightarrow> (Returned, commitIteration E st))"

text \<open>
  The two queues \<^verbatim>\<open>runQueue\<close> is called with: the main worklist \<^verbatim>\<open>wl\<close> and
  \<^verbatim>\<open>*aborted.getQueue()\<close>.
\<close>

datatype lwl = MainWL | AbortedQueue

fun lwl_pop ::
  "('a, 'w) Env \<Rightarrow> lwl \<Rightarrow> ('a, 'w) ForEachExecutor \<Rightarrow> ('a + 'a Item) option \<times> ('a, 'w) ForEachExecutor" where
  "lwl_pop E MainWL st =
     (case wl_pop E (wl st) of (r, w) \<Rightarrow> (map_option Inl r, st\<lparr>wl := w\<rparr>))"
| "lwl_pop E AbortedQueue st =
     (case pop_queue (TID E) (aborted st) of (r, h) \<Rightarrow> (map_option Inr r, st\<lparr>aborted := h\<rparr>))"

text \<open>
  \<^verbatim>\<open>runQueueDispatch<limit>\<close>, from the state \<^verbatim>\<open>s.num\<close>; the result is the final
  \<^verbatim>\<open>s.num\<close>. The loop
  \<^verbatim>\<open>while ((!limit || s.num < limit) && (s.item = lwl.pop())) { ++s.num; doProcess(...); }\<close>
  stands inside the \<^verbatim>\<open>try\<close> (or behind \<^verbatim>\<open>setjmp\<close>): a conflict leaves the loop, and
  the handler calls \<^verbatim>\<open>abortIteration(*s.item, tld)\<close> and returns. \<^verbatim>\<open>s.num\<close> is an
  \<^verbatim>\<open>unsigned int\<close>. With \<open>limit = 0\<close> the loop need not end; not returning is the
  value \<open>None\<close>.
\<close>

partial_function (option) runQueueDispatch ::
  "('a, 'w) Env \<Rightarrow> nat \<Rightarrow> lwl \<Rightarrow> nat \<Rightarrow> ('a, 'w) ForEachExecutor \<Rightarrow> (nat \<times> ('a, 'w) ForEachExecutor) option" where
  "runQueueDispatch E limit l num st =
     (if limit = 0 \<or> num < limit
      then (case lwl_pop E l st of
              (None, st) \<Rightarrow> Some (num, st)
            | (Some item, st) \<Rightarrow>
                (case doProcess E (aborted_value item) st of
                   (Conflict, st) \<Rightarrow> Some ((num + 1) mod 2 ^ 32, abortIteration E item st)
                 | (Returned, st) \<Rightarrow> runQueueDispatch E limit l ((num + 1) mod 2 ^ 32) st))
      else Some (num, st))"

text \<open>
  \<^verbatim>\<open>RunQueueState<WL> s; runQueueDispatch<limit>(tld, lwl, s); return s.num > 0;\<close>
\<close>

definition runQueue ::
  "('a, 'w) Env \<Rightarrow> nat \<Rightarrow> lwl \<Rightarrow> ('a, 'w) ForEachExecutor \<Rightarrow> (bool \<times> ('a, 'w) ForEachExecutor) option" where
  "runQueue E limit l st =
     (case runQueueDispatch E limit l 0 st of
        None \<Rightarrow> None
      | Some (num, st) \<Rightarrow> Some (num > 0, st))"

definition handleAborts ::
  "('a, 'w) Env \<Rightarrow> ('a, 'w) ForEachExecutor \<Rightarrow> (bool \<times> ('a, 'w) ForEachExecutor) option" where
  "handleAborts E st = runQueue E 0 AbortedQueue st"

text \<open>
  \<^verbatim>\<open>runQueueSimple\<close>: \<^verbatim>\<open>while ((p = wl.pop())) { didWork = true; doProcess(*p, tld); }\<close>.
  It runs only for a worker that cannot abort.
\<close>

partial_function (option) runQueueSimple_loop ::
  "('a, 'w) Env \<Rightarrow> bool \<Rightarrow> ('a, 'w) ForEachExecutor \<Rightarrow> (bool \<times> ('a, 'w) ForEachExecutor) option" where
  "runQueueSimple_loop E didWork st =
     (case wl_pop E (wl st) of
        (None, w) \<Rightarrow> Some (didWork, st\<lparr>wl := w\<rparr>)
      | (Some p, w) \<Rightarrow> runQueueSimple_loop E True (snd (doProcess E p (st\<lparr>wl := w\<rparr>))))"

definition runQueueSimple ::
  "('a, 'w) Env \<Rightarrow> ('a, 'w) ForEachExecutor \<Rightarrow> (bool \<times> ('a, 'w) ForEachExecutor) option" where
  "runQueueSimple E st = runQueueSimple_loop E False st"

text \<open>
  One pass through the body of the \<^verbatim>\<open>do ... while (term.Working() && ...)\<close> loop of
  \<^verbatim>\<open>go<couldAbort, isLeader>\<close>: the batch from the main worklist, the drain of the abort
  handler's queue, and \<^verbatim>\<open>term.SignalWorked(didWork)\<close>.
\<close>

definition go_pass ::
  "('a, 'w) Env \<Rightarrow> bool \<Rightarrow> ('a, 'w) ForEachExecutor \<Rightarrow> ('a, 'w) ForEachExecutor option" where
  "go_pass E isLeader st =
     (if couldAbort E \<or> needsBreak (traits E)
      then (let NUM = (if needsBreak (traits E) \<or> isLeader then 64 else 0)
            in case runQueue E NUM MainWL st of
                 None \<Rightarrow> None
               | Some (b, st) \<Rightarrow>
                   (let didWork = (b \<or> False)
                    in if couldAbort E
                       then (case handleAborts E st of
                               None \<Rightarrow> None
                             | Some (b, st) \<Rightarrow> Some (term_SignalWorked (b \<or> didWork) st))
                       else Some (term_SignalWorked didWork st)))
      else (case runQueueSimple E st of
              None \<Rightarrow> None
            | Some (b, st) \<Rightarrow> Some (term_SignalWorked (b \<or> False) st)))"

text \<open>
  \<open>extends st st'\<close>: the calls recorded in \<open>st'\<close> are those of \<open>st\<close> followed by calls
  that are not \<^verbatim>\<open>SignalWorked\<close>.
\<close>

fun is_signal :: "'a event \<Rightarrow> bool" where
  "is_signal (SignalWorked b) = True"
| "is_signal e = False"

definition extends :: "('a, 'w) ForEachExecutor \<Rightarrow> ('a, 'w) ForEachExecutor \<Rightarrow> bool" where
  "extends st st' = (\<exists>evs. trace st' = trace st @ evs \<and> list_all (\<lambda>e. \<not> is_signal e) evs)"

text \<open>
  The executor after its constructor, with the worklist as seeded.
\<close>

definition new_ForEachExecutor :: "('a, 'w) Env \<Rightarrow> 'w \<Rightarrow> ('a, 'w) ForEachExecutor" where
  "new_ForEachExecutor E w =
     \<lparr>wl = w, aborted = new_AbortHandler (pool E), broke = False, pushBuffer = [], alloc = 0,
      ctx = [], stat_iterations = 0, stat_conflicts = 0, stat_pushes = 0, trace = []\<rparr>"

text \<open>
  Examples: executors over natural numbers on an sFIFO worklist, whose bulk push pushes each
  item in turn, run by worker 1 of two active workers on the machine with two sockets.
  The operators: one that does nothing; one that acquires, allocates, pushes and then
  meets a conflict; one that acquires, allocates and pushes \<open>v + 1\<close> for \<open>v < 6\<close>.
\<close>

definition sFIFO_push_range :: "'a list \<Rightarrow> 'a sFIFO \<Rightarrow> 'a sFIFO" where
  "sFIFO_push_range items w = fold sFIFO_push items w"


definition conflicting_op :: "nat \<Rightarrow> nat \<Rightarrow> nat op_result" where
  "conflicting_op v i =
     \<lparr>op_acquired = [v], op_alloc = 8, op_pushes = [v + 1], op_break = False, op_conflict = True\<rparr>"

definition pushing_op :: "nat \<Rightarrow> nat \<Rightarrow> nat op_result" where
  "pushing_op v i =
     \<lparr>op_acquired = [v], op_alloc = 8, op_pushes = (if v < 6 then [v + 1] else []),
      op_break = False, op_conflict = False\<rparr>"

definition Env_example :: "Traits \<Rightarrow> (nat \<Rightarrow> nat \<Rightarrow> nat op_result) \<Rightarrow> (nat, nat sFIFO) Env" where
  "Env_example t f =
     \<lparr>traits = t, wl_push = sFIFO_push_range, wl_pop = sFIFO_pop, origFunction = f,
      pool = two_sockets, TID = 1, activeThreads = 2\<rparr>"

definition all_traits :: Traits where
  "all_traits = \<lparr>needsPush = True, needsAborts = True, needsPia = True, needsBreak = False\<rparr>"


definition no_aborts :: Traits where
  "no_aborts = \<lparr>needsPush = True, needsAborts = False, needsPia = True, needsBreak = False\<rparr>"

definition abort_example :: "(nat, nat sFIFO) Env" where
  "abort_example = Env_example all_traits conflicting_op"

definition commit_example :: "(nat, nat sFIFO) Env" where
  "commit_example = Env_example all_traits pushing_op"


subsection \<open>Facts about the executor\<close>

lemmas exec_defs =
  inc_pushes_def inc_conflicts_def inc_iterations_def resetAlloc_def resetPushBuffer_def
  ctx_startIteration_def ctx_commitIteration_def ctx_cancelIteration_def
  wl_push_range_def fastPushBack_def

lemma extends_refl: "extends st st"
  by (simp add: extends_def)

lemma extends_trans: "extends a b \<Longrightarrow> extends b c \<Longrightarrow> extends a c"
  by (auto simp: extends_def)

lemma extends_same_trace: "trace st' = trace st \<Longrightarrow> extends st st'"
  by (simp add: extends_def)

lemma commitIteration_effect:
  "wl (commitIteration E st) =
     (if needsPush (traits E) \<and> pushBuffer st \<noteq> [] then wl_push E (pushBuffer st) (wl st) else wl st)"
  "pushBuffer (commitIteration E st) = (if needsPush (traits E) then [] else pushBuffer st)"
  "stat_pushes (commitIteration E st) =
     (if needsPush (traits E) then stat_pushes st + length (pushBuffer st) else stat_pushes st)"
  "alloc (commitIteration E st) = (if needsPia (traits E) then 0 else alloc st)"
  "ctx (commitIteration E st) = (if needsAborts (traits E) then [] else ctx st)"
  "trace (commitIteration E st) =
     trace st @ (if needsPush (traits E) \<and> pushBuffer st \<noteq> [] then [WlPush (pushBuffer st)] else [])
       @ (if needsAborts (traits E) then [CommitIteration] else [])"
  "stat_iterations (commitIteration E st) = stat_iterations st"
  "stat_conflicts (commitIteration E st) = stat_conflicts st"
  "aborted (commitIteration E st) = aborted st"
  "broke (commitIteration E st) = broke st"
  by (simp_all add: commitIteration_def exec_defs Let_def)

lemma commitIteration_extends: "extends st (commitIteration E st)"
  by (simp add: extends_def commitIteration_effect)

lemma abortIteration_effect:
  "ctx (abortIteration E item st) = []"
  "trace (abortIteration E item st) = trace st @ [CancelIteration]"
  "stat_conflicts (abortIteration E item st) = stat_conflicts st + 1"
  "aborted (abortIteration E item st) = aborted_push E item (aborted st)"
  "pushBuffer (abortIteration E item st) = (if needsPush (traits E) then [] else pushBuffer st)"
  "alloc (abortIteration E item st) = (if needsPia (traits E) then 0 else alloc st)"
  "wl (abortIteration E item st) = wl st"
  "stat_pushes (abortIteration E item st) = stat_pushes st"
  "stat_iterations (abortIteration E item st) = stat_iterations st"
  "broke (abortIteration E item st) = broke st"
  by (simp_all add: abortIteration_def exec_defs Let_def)

lemma abortIteration_extends: "extends st (abortIteration E item st)"
  by (simp add: extends_def abortIteration_effect)

lemma user_push_frame:
  "stat_iterations (user_push E v st) = stat_iterations st"
  "stat_conflicts (user_push E v st) = stat_conflicts st"
  "stat_pushes (user_push E v st) = stat_pushes st"
  "aborted (user_push E v st) = aborted st"
  "ctx (user_push E v st) = ctx st"
  "alloc (user_push E v st) = alloc st"
  "broke (user_push E v st) = broke st"
  by (simp_all add: user_push_def exec_defs Let_def)

lemma user_push_buffered:
  "couldAbort E \<Longrightarrow> user_push E v st = st\<lparr>pushBuffer := pushBuffer st @ [v]\<rparr>"
  by (simp add: user_push_def)

lemma user_push_extends: "extends st (user_push E v st)"
  by (simp add: user_push_def exec_defs Let_def extends_def)

lemma fold_user_push_frame:
  "stat_iterations (fold (user_push E) vs st) = stat_iterations st"
  "stat_conflicts (fold (user_push E) vs st) = stat_conflicts st"
  "stat_pushes (fold (user_push E) vs st) = stat_pushes st"
  "aborted (fold (user_push E) vs st) = aborted st"
  "ctx (fold (user_push E) vs st) = ctx st"
  "alloc (fold (user_push E) vs st) = alloc st"
  "broke (fold (user_push E) vs st) = broke st"
  by (induction vs arbitrary: st; simp add: user_push_frame)+

lemma fold_user_push_buffered:
  "couldAbort E \<Longrightarrow> fold (user_push E) vs st = st\<lparr>pushBuffer := pushBuffer st @ vs\<rparr>"
  by (induction vs arbitrary: st) (simp_all add: user_push_buffered)

lemma fold_user_push_extends: "extends st (fold (user_push E) vs st)"
proof (induction vs arbitrary: st)
  case Nil
  show ?case by (simp add: extends_refl)
next
  case (Cons v vs)
  have "extends st (user_push E v st)" by (rule user_push_extends)
  moreover have "extends (user_push E v st) (fold (user_push E) vs (user_push E v st))"
    by (rule Cons.IH)
  ultimately show ?case by (simp add: extends_trans)
qed

lemma call_function_frame:
  "stat_iterations (snd (call_function E v st)) = stat_iterations st"
  "stat_conflicts (snd (call_function E v st)) = stat_conflicts st"
  "stat_pushes (snd (call_function E v st)) = stat_pushes st"
  "aborted (snd (call_function E v st)) = aborted st"
  by (simp_all add: call_function_def Let_def fold_user_push_frame)

lemma call_function_extends: "extends st (snd (call_function E v st))"
proof -
  let ?r = "origFunction E v (stat_iterations st)"
  let ?s1 = "(if couldAbort E then st\<lparr>ctx := ctx st @ op_acquired ?r\<rparr> else st)\<lparr>alloc :=
      alloc (if couldAbort E then st\<lparr>ctx := ctx st @ op_acquired ?r\<rparr> else st) + op_alloc ?r\<rparr>"
  have 1: "extends st ?s1" by (simp add: extends_def)
  have 2: "extends ?s1 (fold (user_push E) (op_pushes ?r) ?s1)" by (rule fold_user_push_extends)
  have 3: "trace (snd (call_function E v st)) = trace (fold (user_push E) (op_pushes ?r) ?s1)"
    by (simp add: call_function_def Let_def)
  from extends_trans [OF 1 2] 3 show ?thesis by (simp add: extends_def)
qed

lemma call_function_Conflict:
  assumes "fst (call_function E v st) = Conflict"
  shows "couldAbort E"
    and "wl (snd (call_function E v st)) = wl st"
    and "trace (snd (call_function E v st)) = trace st"
    and "pushBuffer (snd (call_function E v st)) =
           pushBuffer st @ op_pushes (origFunction E v (stat_iterations st))"
proof -
  show c: "couldAbort E" using assms by (auto simp: call_function_def Let_def split: if_splits)
  show "wl (snd (call_function E v st)) = wl st"
    and "trace (snd (call_function E v st)) = trace st"
    and "pushBuffer (snd (call_function E v st)) =
           pushBuffer st @ op_pushes (origFunction E v (stat_iterations st))"
    using c by (simp_all add: call_function_def Let_def fold_user_push_buffered)
qed

lemma doProcess_cases:
  obtains st1 st2
  where "st1 = inc_iterations (if needsAborts (traits E) then ctx_startIteration st else st)"
    and "call_function E v st1 = (Conflict, st2)" and "doProcess E v st = (Conflict, st2)"
  | st1 st2
  where "st1 = inc_iterations (if needsAborts (traits E) then ctx_startIteration st else st)"
    and "call_function E v st1 = (Returned, st2)"
    and "doProcess E v st = (Returned, commitIteration E st2)"
proof -
  define st1 where "st1 = inc_iterations (if needsAborts (traits E) then ctx_startIteration st else st)"
  obtain out st2 where cf: "call_function E v st1 = (out, st2)"
    by (cases "call_function E v st1")
  show ?thesis
  proof (cases out)
    case Returned
    with cf have "doProcess E v st = (Returned, commitIteration E st2)"
      by (simp add: doProcess_def Let_def st1_def)
    with that(2) st1_def cf Returned show ?thesis by blast
  next
    case Conflict
    with cf have "doProcess E v st = (Conflict, st2)"
      by (simp add: doProcess_def Let_def st1_def)
    with that(1) st1_def cf Conflict show ?thesis by blast
  qed
qed

lemma doProcess_frame:
  "stat_iterations (snd (doProcess E v st)) = stat_iterations st + 1"
  "stat_conflicts (snd (doProcess E v st)) = stat_conflicts st"
  "aborted (snd (doProcess E v st)) = aborted st"
proof -
  have "stat_iterations (snd (doProcess E v st)) = stat_iterations st + 1 \<and>
        stat_conflicts (snd (doProcess E v st)) = stat_conflicts st \<and>
        aborted (snd (doProcess E v st)) = aborted st"
  proof (cases rule: doProcess_cases [of E st v])
    case (1 st1 st2)
    from call_function_frame [of E v st1] 1(2)
    have "stat_iterations st2 = stat_iterations st1" "stat_conflicts st2 = stat_conflicts st1"
      "aborted st2 = aborted st1" by simp_all
    then show ?thesis using 1(1,3) by (simp add: exec_defs)
  next
    case (2 st1 st2)
    from call_function_frame [of E v st1] 2(2)
    have "stat_iterations st2 = stat_iterations st1" "stat_conflicts st2 = stat_conflicts st1"
      "aborted st2 = aborted st1" by simp_all
    then show ?thesis using 2(1,3) by (simp add: exec_defs commitIteration_effect)
  qed
  then show "stat_iterations (snd (doProcess E v st)) = stat_iterations st + 1"
    "stat_conflicts (snd (doProcess E v st)) = stat_conflicts st"
    "aborted (snd (doProcess E v st)) = aborted st"
    by simp_all
qed

lemma doProcess_extends: "extends st (snd (doProcess E v st))"
proof (cases rule: doProcess_cases [of E st v])
  case (1 st1 st2)
  have a: "extends st st1" using 1(1) by (simp add: extends_def exec_defs)
  have b: "extends st1 st2" using call_function_extends [of st1 E v] 1(2) by simp
  from extends_trans [OF a b] 1(3) show ?thesis by simp
next
  case (2 st1 st2)
  have a: "extends st st1" using 2(1) by (simp add: extends_def exec_defs)
  have b: "extends st1 st2" using call_function_extends [of st1 E v] 2(2) by simp
  have c: "extends st2 (commitIteration E st2)" by (rule commitIteration_extends)
  from extends_trans [OF extends_trans [OF a b] c] 2(3) show ?thesis by simp
qed

lemma doProcess_Conflict:
  assumes "fst (doProcess E v st) = Conflict"
  shows "couldAbort E \<and> needsAborts (traits E) \<and>
         wl (snd (doProcess E v st)) = wl st \<and>
         stat_pushes (snd (doProcess E v st)) = stat_pushes st \<and>
         trace (snd (doProcess E v st)) = trace st @ [StartIteration] \<and>
         pushBuffer (snd (doProcess E v st)) =
           pushBuffer st @ op_pushes (origFunction E v (stat_iterations st + 1))"
proof (cases rule: doProcess_cases [of E st v])
  case (1 st1 st2)
  have cf: "fst (call_function E v st1) = Conflict" "snd (call_function E v st1) = st2"
    using 1(2) by simp_all
  note c = call_function_Conflict [OF cf(1), unfolded cf(2)]
  have na: "needsAborts (traits E)" using c(1) by (simp add: couldAbort_def)
  have sp: "stat_pushes st2 = stat_pushes st1"
    using call_function_frame(3) [of E v st1] cf(2) by simp
  show ?thesis
    using c na sp 1(1,3) by (simp add: exec_defs)
next
  case (2 st1 st2)
  with assms show ?thesis by simp
qed

lemma lwl_pop_frame:
  "stat_iterations (snd (lwl_pop E l st)) = stat_iterations st"
  "stat_conflicts (snd (lwl_pop E l st)) = stat_conflicts st"
  "trace (snd (lwl_pop E l st)) = trace st"
  by (cases l; simp split: prod.splits)+



lemma runQueueDispatch_extends:
  assumes "runQueueDispatch E limit l num st = Some y"
  shows "extends st (snd y)"
proof (rule runQueueDispatch.raw_induct
    [where P = "\<lambda>E limit l num st y. extends st (snd y)", OF _ assms], goal_cases)
  case (1 rqd E limit l num st y)
  show ?case
  proof (cases "limit = 0 \<or> num < limit")
    case False
    with 1(2) show ?thesis by (auto simp: extends_refl)
  next
    case True
    obtain r st1 where pop: "lwl_pop E l st = (r, st1)" by (cases "lwl_pop E l st")
    have e1: "extends st st1"
      using lwl_pop_frame(3) [of E l st] pop by (simp add: extends_same_trace)
    show ?thesis
    proof (cases r)
      case None
      with 1(2) True pop e1 show ?thesis by auto
    next
      case (Some item)
      obtain out st2 where dp: "doProcess E (aborted_value item) st1 = (out, st2)"
        by (cases "doProcess E (aborted_value item) st1")
      have e2: "extends st1 st2"
        using doProcess_extends [of st1 E "aborted_value item"] dp by simp
      show ?thesis
      proof (cases out)
        case Conflict
        with 1(2) True pop Some dp have "snd y = abortIteration E item st2" by auto
        with extends_trans [OF extends_trans [OF e1 e2] abortIteration_extends [of st2 E item]]
        show ?thesis by simp
      next
        case Returned
        with 1(2) True pop Some dp have "rqd E limit l ((num + 1) mod 2 ^ 32) st2 = Some y" by simp
        from 1(1) [OF this] have "extends st2 (snd y)" .
        with extends_trans [OF e1 e2] show ?thesis by (rule extends_trans)
      qed
    qed
  qed
qed


lemma runQueueSimple_loop_extends:
  assumes "runQueueSimple_loop E didWork st = Some y"
  shows "extends st (snd y)"
proof (rule runQueueSimple_loop.raw_induct
    [where P = "\<lambda>E didWork st y. extends st (snd y)", OF _ assms], goal_cases)
  case (1 rqs E didWork st y)
  obtain r w where pop: "wl_pop E (wl st) = (r, w)" by (cases "wl_pop E (wl st)")
  have e1: "extends st (st\<lparr>wl := w\<rparr>)" by (simp add: extends_same_trace)
  show ?case
  proof (cases r)
    case None
    with 1(2) pop e1 show ?thesis by auto
  next
    case (Some p)
    with 1(2) pop have "rqs E True (snd (doProcess E p (st\<lparr>wl := w\<rparr>))) = Some y" by simp
    from 1(1) [OF this] have "extends (snd (doProcess E p (st\<lparr>wl := w\<rparr>))) (snd y)" .
    with extends_trans [OF e1 doProcess_extends] show ?thesis by (rule extends_trans)
  qed
qed

lemma runQueue_extends: "runQueue E limit l st = Some (b, st') \<Longrightarrow> extends st st'"
  using runQueueDispatch_extends [of E limit l 0 st]
  by (auto simp: runQueue_def split: option.splits)

lemma extends_signal:
  "extends st st1 \<Longrightarrow>
     \<exists>evs. trace (term_SignalWorked b st1) = trace st @ evs @ [SignalWorked b] \<and>
           list_all (\<lambda>e. \<not> is_signal e) evs"
  by (auto simp: extends_def term_SignalWorked_def)

lemma go_pass_signal_last:
  assumes "go_pass E isLeader st = Some st2"
  shows "\<exists>evs b. trace st2 = trace st @ evs @ [SignalWorked b] \<and> list_all (\<lambda>e. \<not> is_signal e) evs"
proof (cases "couldAbort E \<or> needsBreak (traits E)")
  case False
  with assms obtain b st1 where r: "runQueueSimple E st = Some (b, st1)"
    and st2: "st2 = term_SignalWorked (b \<or> False) st1"
    by (auto simp: go_pass_def split: option.splits)
  from r have "extends st st1"
    using runQueueSimple_loop_extends [of E False st "(b, st1)"] by (simp add: runQueueSimple_def)
  from extends_signal [OF this] st2 show ?thesis by blast
next
  case True
  with assms obtain b st1 where r: "runQueue E (if needsBreak (traits E) \<or> isLeader then 64 else 0) MainWL st = Some (b, st1)"
    by (auto simp: go_pass_def Let_def split: option.splits)
  have e1: "extends st st1" using r by (rule runQueue_extends)
  show ?thesis
  proof (cases "couldAbort E")
    case False
    with assms True r have "st2 = term_SignalWorked (b \<or> False) st1"
      by (simp add: go_pass_def Let_def)
    with extends_signal [OF e1] show ?thesis by blast
  next
    case c: True
    with assms True r obtain b' st1' where h: "handleAborts E st1 = Some (b', st1')"
      and st2: "st2 = term_SignalWorked (b' \<or> (b \<or> False)) st1'"
      by (auto simp: go_pass_def Let_def split: option.splits)
    have "extends st1 st1'" using h unfolding handleAborts_def by (rule runQueue_extends)
    with e1 have "extends st st1'" by (rule extends_trans)
    from extends_signal [OF this] st2 show ?thesis by blast
  qed
qed

lemmas exec_eval =
  go_pass_def runQueue_def handleAborts_def runQueueDispatch.simps doProcess_def call_function_def
  commitIteration_def abortIteration_def user_push_def exec_defs term_SignalWorked_def
  couldAbort_def Env_example_def new_ForEachExecutor_def sFIFO_push_range_def sFIFO_push_def
  sFIFO_pop_def pop_queue_def new_AbortHandler_def two_sockets_def Let_def
  push_val_def push_item_def doublePolicy_def basicPolicy_def enqueue_def

lemma go_pass_example:
  "map_option trace (go_pass (Env_example all_traits pushing_op) True
      (new_ForEachExecutor (Env_example all_traits pushing_op) [5])) =
   Some [StartIteration, WlPush [6], CommitIteration, StartIteration, CommitIteration,
         SignalWorked True]"
  by (simp add: exec_eval all_traits_def pushing_op_def)






text \<open>
  Claim C6. \<^verbatim>\<open>abortIteration\<close>, under its assertion \<^verbatim>\<open>needsAborts\<close>, cancels the
  iteration on the conflict context (whose log is empty afterwards), adds one to the
  conflict counter, hands the item to the abort handler, clears the push buffer when
  pushes are enabled and resets the per-iteration allocator when it is enabled; it
  leaves the worklist and the pushes counter alone. So for an iteration that a conflict
  aborts, from \<^verbatim>\<open>doProcess\<close> to the end of \<^verbatim>\<open>abortIteration\<close>: nothing was pushed to
  the worklist, the push buffer is empty, the allocator is reset, the context's log is
  empty, and the item is with the abort handler.
\<close>

theorem abortIteration_rolls_back:
  assumes "needsAborts (traits E)"
  shows
  "ctx (abortIteration E item st) = [] \<and>
   trace (abortIteration E item st) = trace st @ [CancelIteration] \<and>
   stat_conflicts (abortIteration E item st) = stat_conflicts st + 1 \<and>
   aborted (abortIteration E item st) = aborted_push E item (aborted st) \<and>
   (needsPush (traits E) \<longrightarrow> pushBuffer (abortIteration E item st) = []) \<and>
   (needsPia (traits E) \<longrightarrow> alloc (abortIteration E item st) = 0) \<and>
   wl (abortIteration E item st) = wl st \<and>
   stat_pushes (abortIteration E item st) = stat_pushes st \<and>
   (fst (doProcess E (aborted_value item) st) = Conflict \<longrightarrow>
      wl (abortIteration E item (snd (doProcess E (aborted_value item) st))) = wl st \<and>
      stat_pushes (abortIteration E item (snd (doProcess E (aborted_value item) st))) = stat_pushes st \<and>
      trace (abortIteration E item (snd (doProcess E (aborted_value item) st))) =
        trace st @ [StartIteration, CancelIteration] \<and>
      ctx (abortIteration E item (snd (doProcess E (aborted_value item) st))) = [] \<and>
      aborted (abortIteration E item (snd (doProcess E (aborted_value item) st))) =
        aborted_push E item (aborted st) \<and>
      (needsPush (traits E) \<longrightarrow>
         pushBuffer (abortIteration E item (snd (doProcess E (aborted_value item) st))) = []) \<and>
      (needsPia (traits E) \<longrightarrow>
         alloc (abortIteration E item (snd (doProcess E (aborted_value item) st))) = 0))"
proof -
  have "wl (abortIteration E item (snd (doProcess E (aborted_value item) st))) = wl st \<and>
      stat_pushes (abortIteration E item (snd (doProcess E (aborted_value item) st))) = stat_pushes st \<and>
      trace (abortIteration E item (snd (doProcess E (aborted_value item) st))) =
        trace st @ [StartIteration, CancelIteration] \<and>
      aborted (abortIteration E item (snd (doProcess E (aborted_value item) st))) =
        aborted_push E item (aborted st)"
    if "fst (doProcess E (aborted_value item) st) = Conflict"
    using doProcess_Conflict [OF that] doProcess_frame(3) [of E "aborted_value item" st]
    by (simp add: abortIteration_effect)
  then show ?thesis
    by (simp add: abortIteration_effect)
qed

theorem abortIteration_rolls_back_witness:
  "needsAborts (traits abort_example)
   \<and> fst (doProcess abort_example 5 (new_ForEachExecutor abort_example [7])) = Conflict
   \<and> pushBuffer (snd (doProcess abort_example 5 (new_ForEachExecutor abort_example [7]))) = [6]
   \<and> alloc (snd (doProcess abort_example 5 (new_ForEachExecutor abort_example [7]))) = 8
   \<and> wl (abortIteration abort_example (Inl 5)
          (snd (doProcess abort_example 5 (new_ForEachExecutor abort_example [7])))) = [7]
   \<and> pushBuffer (abortIteration abort_example (Inl 5)
          (snd (doProcess abort_example 5 (new_ForEachExecutor abort_example [7])))) = []
   \<and> alloc (abortIteration abort_example (Inl 5)
          (snd (doProcess abort_example 5 (new_ForEachExecutor abort_example [7])))) = 0
   \<and> queues (aborted (abortIteration abort_example (Inl 5)
          (snd (doProcess abort_example 5 (new_ForEachExecutor abort_example [7]))))) 1 =
        [\<lparr>val = 5, retries = 1\<rparr>]"
proof -
  have na: "needsAborts (traits abort_example)"
    by (simp add: abort_example_def Env_example_def all_traits_def)
  have c: "fst (doProcess abort_example 5 (new_ForEachExecutor abort_example [7])) = Conflict"
    "pushBuffer (snd (doProcess abort_example 5 (new_ForEachExecutor abort_example [7]))) = [6]"
    "alloc (snd (doProcess abort_example 5 (new_ForEachExecutor abort_example [7]))) = 8"
    by (simp_all add: abort_example_def exec_eval all_traits_def conflicting_op_def)
  have t: "needsPush (traits abort_example)" "needsPia (traits abort_example)"
    "wl (new_ForEachExecutor abort_example [7]) = [7]"
    "queues (aborted_push abort_example (Inl 5) (aborted (new_ForEachExecutor abort_example [7]))) 1
       = [\<lparr>val = 5, retries = 1\<rparr>]"
    by (simp_all add: abort_example_def exec_eval all_traits_def)
  from abortIteration_rolls_back [OF na, of "Inl 5" "new_ForEachExecutor abort_example [7]"] c t na
  show ?thesis by simp
qed

text \<open>
  Claim C7, as the code has it. When pushes are enabled, \<^verbatim>\<open>commitIteration\<close> moves all
  items of the push buffer into the worklist by one bulk push, clears the buffer and adds
  their number to the pushes counter; when pushes are disabled it leaves the worklist and
  the buffer alone. It then resets the per-iteration allocator when that is enabled, and
  calls \<^verbatim>\<open>commitIteration\<close> on the conflict context when conflict detection is enabled.
  In a pass of \<^verbatim>\<open>go\<close> that returns, \<^verbatim>\<open>term.SignalWorked\<close> is the last call: every
  bulk push of the pass comes before it.
\<close>

theorem commitIteration_publishes:
  "(needsPush (traits E) \<longrightarrow>
      wl (commitIteration E st) =
        (if pushBuffer st = [] then wl st else wl_push E (pushBuffer st) (wl st)) \<and>
      pushBuffer (commitIteration E st) = [] \<and>
      stat_pushes (commitIteration E st) = stat_pushes st + length (pushBuffer st))
   \<and> (\<not> needsPush (traits E) \<longrightarrow>
      wl (commitIteration E st) = wl st \<and> pushBuffer (commitIteration E st) = pushBuffer st \<and>
      stat_pushes (commitIteration E st) = stat_pushes st)
   \<and> (needsPia (traits E) \<longrightarrow> alloc (commitIteration E st) = 0)
   \<and> trace (commitIteration E st) =
        trace st
        @ (if needsPush (traits E) \<and> pushBuffer st \<noteq> [] then [WlPush (pushBuffer st)] else [])
        @ (if needsAborts (traits E) then [CommitIteration] else [])
   \<and> (go_pass E isLeader st = Some st2 \<longrightarrow>
        (\<exists>evs b. trace st2 = trace st @ evs @ [SignalWorked b] \<and>
           list_all (\<lambda>e. \<not> is_signal e) evs))"
  using go_pass_signal_last [of E isLeader st st2]
  by (simp add: commitIteration_effect)

theorem commitIteration_publishes_witness:
  "needsPush (traits commit_example) \<and> needsPia (traits commit_example)
   \<and> wl (commitIteration commit_example
         ((new_ForEachExecutor commit_example [7])\<lparr>pushBuffer := [6, 9]\<rparr>)) = [7, 6, 9]
   \<and> pushBuffer (commitIteration commit_example
         ((new_ForEachExecutor commit_example [7])\<lparr>pushBuffer := [6, 9]\<rparr>)) = []
   \<and> stat_pushes (commitIteration commit_example
         ((new_ForEachExecutor commit_example [7])\<lparr>pushBuffer := [6, 9]\<rparr>)) = 2
   \<and> map_option trace (go_pass commit_example True (new_ForEachExecutor commit_example [5])) =
       Some [StartIteration, WlPush [6], CommitIteration, StartIteration, CommitIteration,
             SignalWorked True]"
proof -
  have g: "map_option trace (go_pass commit_example True (new_ForEachExecutor commit_example [5])) =
       Some [StartIteration, WlPush [6], CommitIteration, StartIteration, CommitIteration,
             SignalWorked True]"
    unfolding commit_example_def by (rule go_pass_example)
  have t: "needsPush (traits commit_example)" "needsPia (traits commit_example)"
    "wl_push commit_example [6, 9] [7] = [7, 6, 9]"
    by (simp_all add: commit_example_def exec_eval all_traits_def)
  from commitIteration_publishes [of commit_example
      "(new_ForEachExecutor commit_example [7])\<lparr>pushBuffer := [6, 9]\<rparr>"] t g
  show ?thesis by (simp add: new_ForEachExecutor_def)
qed

text \<open>
  Claim C7 as the specification words it fails: with conflict detection disabled,
  \<^verbatim>\<open>commitIteration\<close> publishes the buffered item 6 and makes no call on the conflict
  context.
\<close>

theorem commit_without_conflict_detection_counterexample:
  "\<not> needsAborts (traits (Env_example no_aborts pushing_op))
   \<and> trace (commitIteration (Env_example no_aborts pushing_op)
        ((new_ForEachExecutor (Env_example no_aborts pushing_op) [7])\<lparr>pushBuffer := [6]\<rparr>)) =
       [WlPush [6]]
   \<and> CommitIteration \<notin> set (trace (commitIteration (Env_example no_aborts pushing_op)
        ((new_ForEachExecutor (Env_example no_aborts pushing_op) [7])\<lparr>pushBuffer := [6]\<rparr>)))"
  by (simp add: exec_eval no_aborts_def)



end
